theory Spec2Isabelle
  imports Main "HOL-Library.Char_ord" "HOL-Library.List_Lexorder" "HOL-Library.Word"
begin

section \<open>String sets and string multimaps\<close>

text \<open>
  Go: \<^verbatim>\<open>type StringSet map[string]struct{}\<close> and
  \<^verbatim>\<open>type stringmultimap map[string]StringSet\<close>.
  A \<^verbatim>\<open>StringSet\<close> is modelled as a set of strings, a multimap as a partial map
  into such sets. Reading a missing key of a Go map gives the nil set, which has
  length 0, contains nothing and ranges over nothing: \<open>lookup\<close> is that read.
\<close>

type_synonym StringSet = "string set"

type_synonym stringmultimap = "string \<rightharpoonup> StringSet"

definition lookup :: "stringmultimap \<Rightarrow> string \<Rightarrow> StringSet" where
  "lookup m key = (case m key of None \<Rightarrow> {} | Some ss \<Rightarrow> ss)"

definition len :: "StringSet \<Rightarrow> nat" where
  "len ss = card ss"

definition Contains :: "StringSet \<Rightarrow> string \<Rightarrow> bool" where
  "Contains ss s = (s \<in> ss)"

definition StringSet_Add :: "StringSet \<Rightarrow> string \<Rightarrow> StringSet" where
  "StringSet_Add ss s = insert s ss"

definition Remove :: "StringSet \<Rightarrow> string \<Rightarrow> StringSet" where
  "Remove ss s = ss - {s}"

text \<open>
  \<^verbatim>\<open>func (m stringmultimap) Add(key, value string)\<close>: the set under \<open>key\<close> is created
  when it is missing, then \<open>value\<close> is added to it.
\<close>

definition multimap_Add :: "stringmultimap \<Rightarrow> string \<Rightarrow> string \<Rightarrow> stringmultimap" where
  "multimap_Add m key v =
     (case m key of
        None \<Rightarrow> m(key \<mapsto> StringSet_Add {} v)
      | Some ss \<Rightarrow> m(key \<mapsto> StringSet_Add ss v))"

text \<open>
  Go leaves the order of a \<^verbatim>\<open>range\<close> over a map unspecified. A range order is the
  choice the runtime makes: a function listing a set. It is admissible when it lists
  every finite set exactly, each member once.
\<close>

type_synonym range_order = "string set \<Rightarrow> string list"

definition range_ok :: "range_order \<Rightarrow> bool" where
  "range_ok order = (\<forall>S. finite S \<longrightarrow> set (order S) = S \<and> distinct (order S))"

section \<open>The graph and its construction\<close>

text \<open>
  The errors of the package, one constructor per \<^verbatim>\<open>errors.New\<close> message:
  "name must not be empty", "action not added", "parent name must not be empty",
  "parent action not added", "cycle detected", "no roots in graph".
\<close>

datatype error =
    NameEmpty
  | ActionNotAdded
  | ParentNameEmpty
  | ParentActionNotAdded
  | CycleDetected
  | NoRoots

text \<open>
  \<^verbatim>\<open>type Graph struct { treeOrder, graphOrder stringmultimap; actions map[string]Action }\<close>.
  \<open>treeOrder\<close> maps a name to its prerequisites, \<open>graphOrder\<close> a name to its
  dependents. An action is opaque to the graph; its type is the parameter \<open>'a\<close>.
\<close>

record 'a Graph =
  treeOrder :: stringmultimap
  graphOrder :: stringmultimap
  actions :: "string \<rightharpoonup> 'a"

definition NewGraph :: "'a Graph" where
  "NewGraph = \<lparr>treeOrder = Map.empty, graphOrder = Map.empty, actions = Map.empty\<rparr>"

text \<open>
  The two construction calls mutate the graph in place and return an error or nil.
  The model returns the error (\<open>None\<close> for nil) together with the graph after the call.
\<close>

definition AddAction :: "'a Graph \<Rightarrow> string \<Rightarrow> 'a \<Rightarrow> error option \<times> 'a Graph" where
  "AddAction g name action =
     (if name = [] then (Some NameEmpty, g)
      else (None, g\<lparr>actions := (actions g)(name \<mapsto> action)\<rparr>))"

definition LinkDependency :: "'a Graph \<Rightarrow> string \<Rightarrow> string \<Rightarrow> error option \<times> 'a Graph" where
  "LinkDependency g parent name =
     (if name = [] then (Some NameEmpty, g)
      else if actions g name = None then (Some ActionNotAdded, g)
      else if parent = [] then (Some ParentNameEmpty, g)
      else if actions g parent = None then (Some ParentActionNotAdded, g)
      else (None, g\<lparr>treeOrder := multimap_Add (treeOrder g) name parent,
                     graphOrder := multimap_Add (graphOrder g) parent name\<rparr>))"

text \<open>
  The fields of a graph are private to the package: a caller reaches exactly the graphs
  that a sequence of construction calls makes from \<open>NewGraph\<close>, failed calls included.
\<close>

datatype 'a call = CallAddAction string 'a | CallLinkDependency string string

fun apply_call :: "'a Graph \<Rightarrow> 'a call \<Rightarrow> 'a Graph" where
  "apply_call g (CallAddAction name action) = snd (AddAction g name action)"
| "apply_call g (CallLinkDependency parent name) = snd (LinkDependency g parent name)"

definition build :: "'a call list \<Rightarrow> 'a Graph" where
  "build calls = foldl apply_call NewGraph calls"

text \<open>
  \<^verbatim>\<open>collectRoots\<close> ranges over the registered names and sends, on a channel, each name
  whose entry in \<open>graphOrder\<close> has length 0. The receiver sees them in the order of the
  range.
\<close>

definition collectRoots :: "range_order \<Rightarrow> 'a Graph \<Rightarrow> string list" where
  "collectRoots order g =
     filter (\<lambda>name. len (lookup (graphOrder g) name) = 0) (order (dom (actions g)))"

text \<open>The graph of the package's own test of \<^verbatim>\<open>collectRoots\<close> (\<^verbatim>\<open>definedGraph\<close>).\<close>

definition definedGraph :: "string Graph" where
  "definedGraph = build
     [CallAddAction ''a'' ''a'', CallAddAction ''b'' ''b'', CallAddAction ''c'' ''c'',
      CallAddAction ''d'' ''d'', CallAddAction ''e'' ''e'', CallAddAction ''f'' ''f'',
      CallAddAction ''g'' ''g'', CallAddAction ''h'' ''h'', CallAddAction ''i'' ''i'',
      CallAddAction ''j'' ''j'', CallAddAction ''k'' ''k'',
      CallLinkDependency ''a'' ''b'', CallLinkDependency ''b'' ''e'',
      CallLinkDependency ''e'' ''f'', CallLinkDependency ''a'' ''c'',
      CallLinkDependency ''c'' ''g'', CallLinkDependency ''a'' ''d'',
      CallLinkDependency ''a'' ''h'', CallLinkDependency ''h'' ''i'',
      CallLinkDependency ''i'' ''j'', CallLinkDependency ''i'' ''k'']"

text \<open>
  Two small call sequences used as concrete inputs: two registered actions, and the
  graph of the package's test \<^verbatim>\<open>TestGraph_Resolve\<close>, where \<open>b\<close> depends on \<open>a\<close>.
\<close>

definition pair_calls :: "nat call list" where
  "pair_calls = [CallAddAction ''a'' 1, CallAddAction ''b'' 2]"

definition chain_calls :: "nat call list" where
  "chain_calls = pair_calls @ [CallLinkDependency ''a'' ''b'']"

section \<open>Properties of the construction calls\<close>

lemma lookup_multimap_Add:
  "lookup (multimap_Add m key v) k = (if k = key then insert v (lookup m k) else lookup m k)"
  by (simp add: lookup_def multimap_Add_def StringSet_Add_def split: option.splits)

lemma lookup_empty [simp]: "lookup Map.empty k = {}"
  by (simp add: lookup_def)


text \<open>
  What every reachable graph satisfies: finitely many registered names, none of them
  empty, the two adjacency maps transposes of each other, and edges only between
  registered names.
\<close>

definition wf_graph :: "'a Graph \<Rightarrow> bool" where
  "wf_graph g =
     (finite (dom (actions g)) \<and> [] \<notin> dom (actions g) \<and>
      (\<forall>p c. p \<in> lookup (treeOrder g) c \<longleftrightarrow> c \<in> lookup (graphOrder g) p) \<and>
      (\<forall>p c. p \<in> lookup (treeOrder g) c \<longrightarrow> p \<in> dom (actions g) \<and> c \<in> dom (actions g)))"

lemma wf_NewGraph: "wf_graph NewGraph"
  by (simp add: wf_graph_def NewGraph_def)

lemma wf_AddAction: "wf_graph g \<Longrightarrow> wf_graph (snd (AddAction g name action))"
  by (auto simp: wf_graph_def AddAction_def)

lemma wf_LinkDependency: "wf_graph g \<Longrightarrow> wf_graph (snd (LinkDependency g parent name))"
  by (auto simp: wf_graph_def LinkDependency_def lookup_multimap_Add)

lemma wf_apply_call: "wf_graph g \<Longrightarrow> wf_graph (apply_call g c)"
  by (cases c) (simp_all add: wf_AddAction wf_LinkDependency)

lemma wf_foldl: "wf_graph g \<Longrightarrow> wf_graph (foldl apply_call g calls)"
  by (induction calls arbitrary: g) (simp_all add: wf_apply_call)

lemma wf_build: "wf_graph (build calls)"
  by (simp add: build_def wf_foldl wf_NewGraph)

lemma wf_transposed:
  "wf_graph g \<Longrightarrow> p \<in> lookup (treeOrder g) c \<longleftrightarrow> c \<in> lookup (graphOrder g) p"
  by (simp add: wf_graph_def)

lemma wf_edge_registered:
  "wf_graph g \<Longrightarrow> p \<in> lookup (treeOrder g) c \<Longrightarrow> p \<in> dom (actions g) \<and> c \<in> dom (actions g)"
  by (simp add: wf_graph_def)

lemma wf_finite_actions: "wf_graph g \<Longrightarrow> finite (dom (actions g))"
  by (simp add: wf_graph_def)

lemma wf_treeOrder_subset: "wf_graph g \<Longrightarrow> lookup (treeOrder g) c \<subseteq> dom (actions g)"
  using wf_edge_registered by blast

lemma wf_graphOrder_subset: "wf_graph g \<Longrightarrow> lookup (graphOrder g) p \<subseteq> dom (actions g)"
  using wf_edge_registered wf_transposed by blast

lemma wf_finite_treeOrder: "wf_graph g \<Longrightarrow> finite (lookup (treeOrder g) c)"
  using wf_treeOrder_subset wf_finite_actions finite_subset by blast

lemma wf_finite_graphOrder: "wf_graph g \<Longrightarrow> finite (lookup (graphOrder g) p)"
  using wf_graphOrder_subset wf_finite_actions finite_subset by blast

text \<open>
  C10. \<^verbatim>\<open>AddAction\<close> returns an error exactly when the name is empty. On an error
  the graph is the one before the call; on success the action is stored under the
  name, replacing any action already there, and both adjacency maps are as before.
\<close>

theorem AddAction_error_iff_empty:
  "(fst (AddAction g name action) \<noteq> None \<longleftrightarrow> name = []) \<and>
   (fst (AddAction g name action) \<noteq> None \<longrightarrow> snd (AddAction g name action) = g) \<and>
   (fst (AddAction g name action) = None \<longrightarrow>
      actions (snd (AddAction g name action)) = (actions g)(name \<mapsto> action) \<and>
      treeOrder (snd (AddAction g name action)) = treeOrder g \<and>
      graphOrder (snd (AddAction g name action)) = graphOrder g)"
  by (simp add: AddAction_def)

theorem AddAction_error_iff_empty_witness:
  "fst (AddAction (build chain_calls) [] 3) \<noteq> None \<and>
   snd (AddAction (build chain_calls) [] 3) = build chain_calls \<and>
   fst (AddAction (build chain_calls) ''a'' 3) = None \<and>
   actions (snd (AddAction (build chain_calls) ''a'' 3)) ''a'' = Some 3 \<and>
   treeOrder (snd (AddAction (build chain_calls) ''a'' 3)) = treeOrder (build chain_calls)"
proof -
  let ?g = "build chain_calls"
  have e: "fst (AddAction ?g [] 3) \<noteq> None"
    by (simp add: AddAction_def)
  have s: "fst (AddAction ?g ''a'' 3) = None"
    by (simp add: AddAction_def)
  from AddAction_error_iff_empty [of ?g "[]" 3] e
  have 1: "snd (AddAction ?g [] 3) = ?g" by blast
  from AddAction_error_iff_empty [of ?g "''a''" 3] s
  have 2: "actions (snd (AddAction ?g ''a'' 3)) = (actions ?g)(''a'' \<mapsto> 3) \<and>
      treeOrder (snd (AddAction ?g ''a'' 3)) = treeOrder ?g" by blast
  from e s 1 2 show ?thesis by simp
qed

text \<open>
  C9. In every graph that construction calls can make, the two adjacency maps are
  transposes of each other and every edge joins two registered names.
  \<^verbatim>\<open>LinkDependency\<close> on such a graph returns an error exactly when one of the two
  names is empty or has no registered action, and then changes nothing; when it
  succeeds it adds the prerequisite to the dependent's entry of \<open>treeOrder\<close> and the
  dependent to the prerequisite's entry of \<open>graphOrder\<close>, both, and nothing else.
\<close>

theorem LinkDependency_keeps_transposes:
  "(let g = build calls; r = LinkDependency g parent name in
     (\<forall>p c. p \<in> lookup (treeOrder g) c \<longleftrightarrow> c \<in> lookup (graphOrder g) p) \<and>
     (\<forall>p c. p \<in> lookup (treeOrder g) c \<longrightarrow> actions g p \<noteq> None \<and> actions g c \<noteq> None) \<and>
     (fst r \<noteq> None \<longleftrightarrow>
        name = [] \<or> actions g name = None \<or> parent = [] \<or> actions g parent = None) \<and>
     (fst r \<noteq> None \<longrightarrow> snd r = g) \<and>
     (fst r = None \<longrightarrow>
        (\<forall>c. lookup (treeOrder (snd r)) c =
              (if c = name then insert parent (lookup (treeOrder g) c)
               else lookup (treeOrder g) c)) \<and>
        (\<forall>p. lookup (graphOrder (snd r)) p =
              (if p = parent then insert name (lookup (graphOrder g) p)
               else lookup (graphOrder g) p)) \<and>
        actions (snd r) = actions g))"
proof -
  have wf: "wf_graph (build calls)" by (rule wf_build)
  have 1: "\<forall>p c. p \<in> lookup (treeOrder (build calls)) c \<longleftrightarrow>
                 c \<in> lookup (graphOrder (build calls)) p"
    using wf by (simp add: wf_graph_def)
  have 2: "\<forall>p c. p \<in> lookup (treeOrder (build calls)) c \<longrightarrow>
                 actions (build calls) p \<noteq> None \<and> actions (build calls) c \<noteq> None"
    using wf_edge_registered [OF wf] by blast
  show ?thesis
    unfolding Let_def
    using 1 2 by (simp add: LinkDependency_def lookup_multimap_Add)
qed

theorem LinkDependency_keeps_transposes_witness:
  "fst (LinkDependency (build pair_calls) ''a'' ''b'') = None \<and>
   ''a'' \<in> lookup (treeOrder (build chain_calls)) ''b'' \<and>
   ''b'' \<in> lookup (graphOrder (build chain_calls)) ''a'' \<and>
   actions (build chain_calls) ''a'' \<noteq> None \<and>
   fst (LinkDependency (build pair_calls) ''a'' ''c'') \<noteq> None \<and>
   snd (LinkDependency (build pair_calls) ''a'' ''c'') = build pair_calls"
proof -
  let ?g = "build pair_calls"
  let ?h = "build chain_calls"
  have ok: "fst (LinkDependency ?g ''a'' ''b'') = None"
    by (simp add: LinkDependency_def build_def AddAction_def NewGraph_def pair_calls_def)
  have bad: "fst (LinkDependency ?g ''a'' ''c'') \<noteq> None"
    by (simp add: LinkDependency_def build_def AddAction_def NewGraph_def pair_calls_def)
  have h: "?h = snd (LinkDependency ?g ''a'' ''b'')"
    by (simp add: build_def chain_calls_def)
  from LinkDependency_keeps_transposes [of pair_calls "''a''" "''b''"] ok
  have t: "''a'' \<in> lookup (treeOrder (snd (LinkDependency ?g ''a'' ''b''))) ''b''"
    unfolding Let_def by simp
  from LinkDependency_keeps_transposes [of chain_calls "''a''" "''b''"] t h
  have u: "''b'' \<in> lookup (graphOrder ?h) ''a'' \<and> actions ?h ''a'' \<noteq> None"
    unfolding Let_def by metis
  from LinkDependency_keeps_transposes [of pair_calls "''a''" "''c''"] bad
  have v: "snd (LinkDependency ?g ''a'' ''c'') = ?g"
    unfolding Let_def by blast
  from ok bad t u v h show ?thesis by simp
qed

section \<open>The root finder\<close>

lemma len_zero_iff: "finite ss \<Longrightarrow> len ss = 0 \<longleftrightarrow> ss = {}"
  by (simp add: len_def)

lemma range_ok_set: "range_ok order \<Longrightarrow> finite S \<Longrightarrow> set (order S) = S"
  by (simp add: range_ok_def)

lemma range_ok_distinct: "range_ok order \<Longrightarrow> finite S \<Longrightarrow> distinct (order S)"
  by (simp add: range_ok_def)

lemma range_ok_sorted_list_of_set: "range_ok sorted_list_of_set"
  by (simp add: range_ok_def)

lemma set_collectRoots:
  assumes "wf_graph g" and "range_ok order"
  shows "set (collectRoots order g) = {name \<in> dom (actions g). lookup (graphOrder g) name = {}}"
proof -
  have "set (order (dom (actions g))) = dom (actions g)"
    using assms by (simp add: range_ok_set wf_finite_actions)
  moreover have "\<And>name. len (lookup (graphOrder g) name) = 0 \<longleftrightarrow> lookup (graphOrder g) name = {}"
    using assms(1) by (simp add: len_zero_iff wf_finite_graphOrder)
  ultimately show ?thesis
    by (auto simp: collectRoots_def)
qed

lemma distinct_collectRoots:
  "wf_graph g \<Longrightarrow> range_ok order \<Longrightarrow> distinct (collectRoots order g)"
  by (simp add: collectRoots_def range_ok_distinct wf_finite_actions)

lemma dom_actions_definedGraph:
  "dom (actions definedGraph) =
     {''a'', ''b'', ''c'', ''d'', ''e'', ''f'', ''g'', ''h'', ''i'', ''j'', ''k''}"
  by (auto simp: definedGraph_def build_def AddAction_def LinkDependency_def NewGraph_def
      split: if_splits)

lemma graphOrder_definedGraph:
  "lookup (graphOrder definedGraph) name =
     (if name = ''a'' then {''b'', ''c'', ''d'', ''h''}
      else if name = ''b'' then {''e''}
      else if name = ''e'' then {''f''}
      else if name = ''c'' then {''g''}
      else if name = ''h'' then {''i''}
      else if name = ''i'' then {''j'', ''k''}
      else {})"
  by (auto simp: definedGraph_def build_def AddAction_def LinkDependency_def NewGraph_def
      lookup_multimap_Add)

text \<open>
  C7. Whatever order the range over the registered names takes, the names that
  \<^verbatim>\<open>collectRoots\<close> sends are exactly the registered names whose set of dependents is
  empty, each sent once; for the tree of the package's test they are f, g, d, j and k.
\<close>

theorem collectRoots_exact:
  "range_ok order \<Longrightarrow>
     set (collectRoots order (build calls)) =
       {name \<in> dom (actions (build calls)). lookup (graphOrder (build calls)) name = {}} \<and>
     distinct (collectRoots order (build calls)) \<and>
     set (collectRoots order definedGraph) = {''f'', ''g'', ''d'', ''j'', ''k''}"
proof -
  assume ok: "range_ok order"
  have wfd: "wf_graph definedGraph"
    by (simp add: definedGraph_def wf_build)
  have "set (collectRoots order definedGraph) =
      {name \<in> dom (actions definedGraph). lookup (graphOrder definedGraph) name = {}}"
    using wfd ok by (rule set_collectRoots)
  also have "\<dots> = {''f'', ''g'', ''d'', ''j'', ''k''}"
    unfolding dom_actions_definedGraph graphOrder_definedGraph by auto
  finally have "set (collectRoots order definedGraph) = {''f'', ''g'', ''d'', ''j'', ''k''}" .
  then show ?thesis
    using ok by (simp add: set_collectRoots distinct_collectRoots wf_build)
qed

theorem collectRoots_exact_witness:
  "range_ok sorted_list_of_set \<and>
   set (collectRoots sorted_list_of_set (build chain_calls)) =
     {name \<in> dom (actions (build chain_calls)). lookup (graphOrder (build chain_calls)) name = {}} \<and>
   set (collectRoots sorted_list_of_set definedGraph) = {''f'', ''g'', ''d'', ''j'', ''k''}"
  using collectRoots_exact [OF range_ok_sorted_list_of_set, of chain_calls]
    range_ok_sorted_list_of_set by simp

section \<open>The resolution session\<close>

text \<open>
  \<^verbatim>\<open>Resolve\<close> walks the graph on the caller's goroutine and starts one goroutine per
  visited name. The walk is a function on the session state; the goroutines are then
  run by a step function, one step of one goroutine at a time, under any schedule.

  The observable events of a session are the four calls of the recorder.
\<close>

datatype event = Enter string | Start string | Finish string | Exit string

text \<open>
  Where a goroutine started by \<^verbatim>\<open>visit\<close> stands in its body:
  \<^item> \<open>Spawned\<close>: started, nothing executed yet; next is \<^verbatim>\<open>recorder.Enter(name)\<close>;
  \<^item> \<open>AtBarrier\<close>: at \<^verbatim>\<open>s.dfsWait.Wait()\<close>;
  \<^item> \<open>CheckFirst\<close>: at the first \<^verbatim>\<open>s.searchContextDone()\<close>;
  \<^item> \<open>AtLatch\<close>: at \<^verbatim>\<open>wg.Wait()\<close>, its own wait group;
  \<^item> \<open>CheckSecond\<close>: at the second \<^verbatim>\<open>s.searchContextDone()\<close>;
  \<^item> \<open>Starting\<close>: at \<^verbatim>\<open>recorder.Start(name)\<close>, the action is called next;
  \<^item> \<open>Running\<close>: inside the action; next it returns and \<^verbatim>\<open>recorder.Finish(name)\<close> is called;
  \<^item> \<open>Completing\<close>: in the deferred \<^verbatim>\<open>visitComplete\<close>, at \<^verbatim>\<open>s.wg.Done()\<close>;
  \<^item> \<open>Notifying ps\<close>: in the loop of \<^verbatim>\<open>visitComplete\<close>, with \<open>ps\<close> the dependents the
    range has not yet produced; when none is left the deferred \<^verbatim>\<open>recorder.Exit(name)\<close> is next;
  \<^item> \<open>Finished\<close>: returned.
\<close>

datatype pc =
    Spawned
  | AtBarrier
  | CheckFirst
  | AtLatch
  | CheckSecond
  | Starting
  | Running
  | Completing
  | Notifying "string set"
  | Finished

text \<open>
  A goroutine of \<^verbatim>\<open>visit\<close>: the name it was started for, where it stands, and the wait
  group it captured (\<open>twg\<close>, an index into the session's wait groups).
\<close>

record task =
  tname :: string
  tpc :: pc
  twg :: nat

text \<open>
  \<^verbatim>\<open>type search struct\<close>, with the state that the Go runtime holds for it.
  From the struct: \<open>waits\<close> (a name to the pointer of its wait group), \<open>visited\<close>,
  \<open>path\<close>, \<open>wg\<close> and \<open>dfsWait\<close> (the counters of the two wait groups) and \<open>ctxDone\<close>
  (whether \<^verbatim>\<open>s.ctx\<close> is done). From the runtime: \<open>groups\<close>, the counters of the wait
  groups that \<^verbatim>\<open>createWaitGroupForDependents\<close> allocated, in order of allocation (a
  pointer is an index); \<open>tasks\<close>, the goroutines that \<^verbatim>\<open>visit\<close> started, in order;
  \<open>watcher\<close>, whether the goroutine that waits for \<open>wg\<close> and then calls \<^verbatim>\<open>done()\<close>
  is waiting; \<open>panicked\<close>, whether a wait group counter went negative.
  From the environment: \<open>polls\<close> counts the calls of \<^verbatim>\<open>searchContextDone\<close> during the
  walk and \<open>ranges\<close> the \<^verbatim>\<open>range\<close> statements started, \<open>now\<close> is the clock.
  From the recorder of \<^verbatim>\<open>Statistics\<close>: the four maps of time stamps; \<open>log\<close> lists the
  recorder's calls, oldest first.
\<close>

record search =
  waits :: "string \<rightharpoonup> nat"
  visited :: StringSet
  path :: StringSet
  wg :: int
  dfsWait :: int
  ctxDone :: bool
  groups :: "int list"
  tasks :: "task list"
  watcher :: bool
  panicked :: bool
  polls :: nat
  ranges :: nat
  now :: int
  enter :: "string \<rightharpoonup> int"
  start :: "string \<rightharpoonup> int"
  finish :: "string \<rightharpoonup> int"
  exit :: "string \<rightharpoonup> int"
  log :: "event list"

subsection \<open>The walk\<close>

text \<open>
  The caller's signal can be cancelled at any moment. During the walk only the calls of
  \<^verbatim>\<open>searchContextDone\<close> observe it, so the environment is the number of calls that
  still see a live signal: \<open>cancelAt = Some k\<close> cancels once \<open>k\<close> calls have returned
  (\<open>Some 0\<close>: the signal is done before \<^verbatim>\<open>Resolve\<close> is called), \<open>None\<close> never cancels
  during the walk.
\<close>

definition searchContextDone :: "nat option \<Rightarrow> search \<Rightarrow> bool \<times> search" where
  "searchContextDone cancelAt s =
     (ctxDone s,
      s\<lparr>polls := Suc (polls s),
        ctxDone := ctxDone s \<or> cancelAt = Some (Suc (polls s))\<rparr>)"

definition createWaitGroupForDependents :: "search \<Rightarrow> string \<Rightarrow> nat \<Rightarrow> nat \<times> search" where
  "createWaitGroupForDependents s name numDependents =
     (length (groups s),
      s\<lparr>groups := groups s @ [int numDependents],
        waits := (waits s)(name \<mapsto> length (groups s))\<rparr>)"

definition visit :: "'a Graph \<Rightarrow> search \<Rightarrow> string \<Rightarrow> search" where
  "visit g s name =
     (let children = lookup (treeOrder g) name;
          (wgp, s1) = createWaitGroupForDependents s name (len children)
      in s1\<lparr>wg := wg s1 + 1,
             tasks := tasks s1 @ [\<lparr>tname = name, tpc = Spawned, twg = wgp\<rparr>]\<rparr>)"

text \<open>
  \<^verbatim>\<open>dfsResolve\<close> and its loop over \<^verbatim>\<open>g.treeOrder[name]\<close>. The recursion of the source
  is not bounded by its arguments; the first argument of the model bounds its depth,
  and \<open>None\<close> is the result when the bound is reached. The \<open>i\<close>-th range statement of the
  session takes the order \<open>rng i\<close>.
\<close>

fun dfsResolve ::
    "nat \<Rightarrow> (nat \<Rightarrow> range_order) \<Rightarrow> nat option \<Rightarrow> 'a Graph \<Rightarrow> string \<Rightarrow> search
      \<Rightarrow> (error option \<times> search) option"
  and dfsChildren ::
    "nat \<Rightarrow> (nat \<Rightarrow> range_order) \<Rightarrow> nat option \<Rightarrow> 'a Graph \<Rightarrow> string \<Rightarrow> string list \<Rightarrow> search
      \<Rightarrow> (error option \<times> search) option"
  where
  "dfsResolve 0 rng cancelAt g name s = None"
| "dfsResolve (Suc n) rng cancelAt g name s =
     (let s1 = s\<lparr>visited := StringSet_Add (visited s) name\<rparr>;
          s2 = s1\<lparr>path := StringSet_Add (path s1) name\<rparr>;
          s3 = visit g s2 name;
          children = rng (ranges s3) (lookup (treeOrder g) name);
          s4 = s3\<lparr>ranges := Suc (ranges s3)\<rparr>
      in case dfsChildren n rng cancelAt g name children s4 of
           None \<Rightarrow> None
         | Some (Some err, s5) \<Rightarrow> Some (Some err, s5)
         | Some (None, s5) \<Rightarrow> Some (None, s5\<lparr>path := Remove (path s5) name\<rparr>))"
| "dfsChildren n rng cancelAt g name [] s = Some (None, s)"
| "dfsChildren n rng cancelAt g name (child # rest) s =
     (if Contains (path s) child then Some (Some CycleDetected, s)
      else if Contains (visited s) child then dfsChildren n rng cancelAt g name rest s
      else case searchContextDone cancelAt s of
             (True, s1) \<Rightarrow> dfsChildren n rng cancelAt g name rest s1
           | (False, s1) \<Rightarrow>
               (case dfsResolve n rng cancelAt g child s1 of
                  None \<Rightarrow> None
                | Some (Some err, s2) \<Rightarrow> Some (Some err, s2)
                | Some (None, s2) \<Rightarrow> dfsChildren n rng cancelAt g name rest s2))"

text \<open>The loop of \<^verbatim>\<open>Resolve\<close> over the roots received from \<^verbatim>\<open>collectRoots\<close>.\<close>

fun resolveRoots ::
    "nat \<Rightarrow> (nat \<Rightarrow> range_order) \<Rightarrow> nat option \<Rightarrow> 'a Graph \<Rightarrow> string list \<Rightarrow> search
      \<Rightarrow> (error option \<times> search) option"
  where
  "resolveRoots n rng cancelAt g [] s = Some (None, s)"
| "resolveRoots n rng cancelAt g (root # rest) s =
     (case dfsResolve n rng cancelAt g root s of
        None \<Rightarrow> None
      | Some (Some err, s1) \<Rightarrow> Some (Some err, s1)
      | Some (None, s1) \<Rightarrow> resolveRoots n rng cancelAt g rest s1)"

text \<open>
  The session as \<^verbatim>\<open>Resolve\<close> initialises it: the derived context is done at once
  when the caller's is, and \<^verbatim>\<open>s.dfsWait.Add(1)\<close> has run. The range of
  \<^verbatim>\<open>collectRoots\<close> is range statement 0.
\<close>

definition newSearch :: "nat option \<Rightarrow> search" where
  "newSearch cancelAt =
     \<lparr>waits = Map.empty, visited = {}, path = {}, wg = 0, dfsWait = 1,
      ctxDone = (cancelAt = Some 0), groups = [], tasks = [], watcher = False,
      panicked = False, polls = 0, ranges = 1, now = 0,
      enter = Map.empty, start = Map.empty, finish = Map.empty, exit = Map.empty,
      log = []\<rparr>"

text \<open>
  \<^verbatim>\<open>Resolve\<close>, up to its return. On an error of the walk, and when no root was
  received, \<^verbatim>\<open>done()\<close> cancels the derived context; otherwise the watcher goroutine is
  started. The deferred \<^verbatim>\<open>s.dfsWait.Done()\<close> runs last in each case. The result is the
  returned error with the session as it stands when \<^verbatim>\<open>Resolve\<close> returns.
\<close>

definition ResolveN ::
    "nat \<Rightarrow> (nat \<Rightarrow> range_order) \<Rightarrow> nat option \<Rightarrow> 'a Graph \<Rightarrow> (error option \<times> search) option"
  where
  "ResolveN n rng cancelAt g =
     (let roots = collectRoots (rng 0) g in
      case resolveRoots n rng cancelAt g roots (newSearch cancelAt) of
        None \<Rightarrow> None
      | Some (Some err, s) \<Rightarrow> Some (Some err, s\<lparr>ctxDone := True, dfsWait := dfsWait s - 1\<rparr>)
      | Some (None, s) \<Rightarrow>
          (if roots = [] then
             Some (Some NoRoots, s\<lparr>ctxDone := True, dfsWait := dfsWait s - 1\<rparr>)
           else Some (None, s\<lparr>watcher := True, dfsWait := dfsWait s - 1\<rparr>)))"

text \<open>
  No walk nests deeper than the number of registered names (shown below for every
  graph the construction calls can make), so that number is the bound of \<open>Resolve\<close>.
\<close>

definition Resolve ::
    "(nat \<Rightarrow> range_order) \<Rightarrow> nat option \<Rightarrow> 'a Graph \<Rightarrow> (error option \<times> search) option"
  where
  "Resolve rng cancelAt g = ResolveN (card (dom (actions g))) rng cancelAt g"

subsection \<open>The recorder and the statistics\<close>

text \<open>
  \<^verbatim>\<open>recordTime(m, name)\<close> stores \<^verbatim>\<open>time.Now()\<close> under the name; the four methods of
  the recorder apply it to their map. A time stamp is an instant, in nanoseconds.
\<close>

definition recordTime :: "(string \<rightharpoonup> int) \<Rightarrow> string \<Rightarrow> int \<Rightarrow> (string \<rightharpoonup> int)" where
  "recordTime m name t = m(name \<mapsto> t)"

definition recorder_Enter :: "string \<Rightarrow> search \<Rightarrow> search" where
  "recorder_Enter name s =
     s\<lparr>enter := recordTime (enter s) name (now s), log := log s @ [Enter name]\<rparr>"

definition recorder_Start :: "string \<Rightarrow> search \<Rightarrow> search" where
  "recorder_Start name s =
     s\<lparr>start := recordTime (start s) name (now s), log := log s @ [Start name]\<rparr>"

definition recorder_Finish :: "string \<Rightarrow> search \<Rightarrow> search" where
  "recorder_Finish name s =
     s\<lparr>finish := recordTime (finish s) name (now s), log := log s @ [Finish name]\<rparr>"

definition recorder_Exit :: "string \<Rightarrow> search \<Rightarrow> search" where
  "recorder_Exit name s =
     s\<lparr>exit := recordTime (exit s) name (now s), log := log s @ [Exit name]\<rparr>"

text \<open>
  \<^verbatim>\<open>time.Duration\<close> is an \<^verbatim>\<open>int64\<close> of nanoseconds: its addition wraps around, and it
  is read as two's complement (\<open>sint\<close>). \<^verbatim>\<open>t.Sub(u)\<close> of the standard library is the
  difference of the two instants when a Duration can hold it, and otherwise the least
  or the greatest Duration.
\<close>

type_synonym Duration = "64 word"

definition minDuration :: Duration where
  "minDuration = word_of_int (- (2 ^ 63))"

definition maxDuration :: Duration where
  "maxDuration = word_of_int (2 ^ 63 - 1)"

definition Time_Sub :: "int \<Rightarrow> int \<Rightarrow> Duration" where
  "Time_Sub t u =
     (if t - u < - (2 ^ 63) then minDuration
      else if 2 ^ 63 - 1 < t - u then maxDuration
      else word_of_int (t - u))"

definition duration :: "(string \<rightharpoonup> int) \<Rightarrow> (string \<rightharpoonup> int) \<Rightarrow> string \<Rightarrow> Duration" where
  "duration from to name =
     (case to name of
        None \<Rightarrow> 0
      | Some b \<Rightarrow> (case from name of None \<Rightarrow> 0 | Some a \<Rightarrow> Time_Sub b a))"

definition Action :: "search \<Rightarrow> string \<Rightarrow> Duration" where
  "Action s name = duration (start s) (finish s) name"

definition Wait :: "search \<Rightarrow> string \<Rightarrow> Duration" where
  "Wait s name = duration (enter s) (start s) name"

definition Total :: "search \<Rightarrow> string \<Rightarrow> Duration" where
  "Total s name = duration (enter s) (exit s) name"

subsection \<open>The goroutines\<close>

text \<open>
  A schedule is a list of labels. \<open>Step i\<close> lets goroutine \<open>i\<close> of \<open>tasks\<close> execute its
  next statement; \<open>Notify i parent\<close> lets it execute one iteration of the loop of
  \<^verbatim>\<open>visitComplete\<close>, the range producing \<open>parent\<close>; \<open>Watch\<close> lets the watcher pass its
  \<^verbatim>\<open>s.wg.Wait()\<close> and call \<^verbatim>\<open>done()\<close>; \<open>Cancel\<close> is the caller's signal being
  cancelled; \<open>Tick\<close> advances the clock. \<open>fire\<close> gives the state after the step, or
  \<open>None\<close> when the step cannot be taken there (the goroutine is blocked or has
  returned, or the program has panicked).
\<close>

datatype label = Step nat | Notify nat string | Watch | Cancel | Tick

definition setpc :: "search \<Rightarrow> nat \<Rightarrow> pc \<Rightarrow> search" where
  "setpc s i p = s\<lparr>tasks := (tasks s)[i := (tasks s ! i)\<lparr>tpc := p\<rparr>]\<rparr>"

text \<open>
  \<^verbatim>\<open>visitComplete\<close> first calls \<^verbatim>\<open>s.wg.Done()\<close>, then, for each dependent, looks its
  wait group up in \<open>waits\<close> and calls \<^verbatim>\<open>Done()\<close> on it when there is one. A
  \<^verbatim>\<open>Done()\<close> that takes a counter below zero panics.
\<close>

definition visitComplete_Done :: "'a Graph \<Rightarrow> search \<Rightarrow> nat \<Rightarrow> search" where
  "visitComplete_Done g s i =
     (if wg s - 1 < 0 then s\<lparr>panicked := True\<rparr>
      else (setpc s i (Notifying (lookup (graphOrder g) (tname (tasks s ! i)))))
             \<lparr>wg := wg s - 1\<rparr>)"

definition visitComplete_parent :: "search \<Rightarrow> nat \<Rightarrow> string set \<Rightarrow> string \<Rightarrow> search" where
  "visitComplete_parent s i ps parent =
     (case waits s parent of
        None \<Rightarrow> setpc s i (Notifying (ps - {parent}))
      | Some j \<Rightarrow>
          (if groups s ! j - 1 < 0 then s\<lparr>panicked := True\<rparr>
           else (setpc s i (Notifying (ps - {parent})))
                  \<lparr>groups := (groups s)[j := groups s ! j - 1]\<rparr>))"

fun step_task :: "'a Graph \<Rightarrow> search \<Rightarrow> nat \<Rightarrow> pc \<Rightarrow> search option" where
  "step_task g s i Spawned = Some (recorder_Enter (tname (tasks s ! i)) (setpc s i AtBarrier))"
| "step_task g s i AtBarrier = (if dfsWait s = 0 then Some (setpc s i CheckFirst) else None)"
| "step_task g s i CheckFirst =
     Some (setpc s i (if ctxDone s then Completing else AtLatch))"
| "step_task g s i AtLatch =
     (if groups s ! twg (tasks s ! i) = 0 then Some (setpc s i CheckSecond) else None)"
| "step_task g s i CheckSecond =
     Some (setpc s i (if ctxDone s then Completing else Starting))"
| "step_task g s i Starting = Some (recorder_Start (tname (tasks s ! i)) (setpc s i Running))"
| "step_task g s i Running = Some (recorder_Finish (tname (tasks s ! i)) (setpc s i Completing))"
| "step_task g s i Completing = Some (visitComplete_Done g s i)"
| "step_task g s i (Notifying ps) =
     (if ps = {} then Some (recorder_Exit (tname (tasks s ! i)) (setpc s i Finished)) else None)"
| "step_task g s i Finished = None"

fun fire :: "'a Graph \<Rightarrow> label \<Rightarrow> search \<Rightarrow> search option" where
  "fire g (Step i) s =
     (if panicked s \<or> length (tasks s) \<le> i then None
      else step_task g s i (tpc (tasks s ! i)))"
| "fire g (Notify i parent) s =
     (if panicked s \<or> length (tasks s) \<le> i then None
      else case tpc (tasks s ! i) of
             Notifying ps \<Rightarrow>
               (if parent \<in> ps then Some (visitComplete_parent s i ps parent) else None)
           | _ \<Rightarrow> None)"
| "fire g Watch s =
     (if panicked s \<or> \<not> watcher s \<or> wg s \<noteq> 0 then None
      else Some (s\<lparr>ctxDone := True, watcher := False\<rparr>))"
| "fire g Cancel s = (if panicked s then None else Some (s\<lparr>ctxDone := True\<rparr>))"
| "fire g Tick s = (if panicked s then None else Some (s\<lparr>now := now s + 1\<rparr>))"

fun exec :: "'a Graph \<Rightarrow> label list \<Rightarrow> search \<Rightarrow> search option" where
  "exec g [] s = Some s"
| "exec g (l # ls) s = (case fire g l s of None \<Rightarrow> None | Some s' \<Rightarrow> exec g ls s')"

text \<open>
  A session of a graph: \<^verbatim>\<open>Resolve\<close> has returned the error \<open>err\<close> (or nil), and the
  goroutines have then taken the steps of some schedule, leading to the state \<open>s\<close>.
\<close>

definition session ::
    "(nat \<Rightarrow> range_order) \<Rightarrow> nat option \<Rightarrow> 'a Graph \<Rightarrow> label list \<Rightarrow> (error option \<times> search) option"
  where
  "session rng cancelAt g schedule =
     (case Resolve rng cancelAt g of
        None \<Rightarrow> None
      | Some (err, s0) \<Rightarrow>
          (case exec g schedule s0 of None \<Rightarrow> None | Some s \<Rightarrow> Some (err, s)))"

section \<open>Properties of the walk\<close>

text \<open>
  The prerequisite edges of a graph: \<open>(n, c)\<close> when \<open>c\<close> is in \<open>treeOrder[n]\<close>, that is,
  when \<open>n\<close> depends on \<open>c\<close>. The walk follows them from the roots.
\<close>


definition edges :: "'a Graph \<Rightarrow> (string \<times> string) set" where
  "edges g = {(n, c). c \<in> lookup (treeOrder g) n}"

definition entered :: "'a Graph \<Rightarrow> search \<Rightarrow> string \<Rightarrow> search" where
  "entered g s name =
     s\<lparr>visited := insert name (visited s), path := insert name (path s),
       groups := groups s @ [int (len (lookup (treeOrder g) name))],
       waits := (waits s)(name \<mapsto> length (groups s)),
       wg := wg s + 1,
       tasks := tasks s @ [\<lparr>tname = name, tpc = Spawned, twg = length (groups s)\<rparr>],
       ranges := Suc (ranges s)\<rparr>"

lemma dfsResolve_Suc:
  "dfsResolve (Suc n) rng ca g name s =
     (case dfsChildren n rng ca g name (rng (ranges s) (lookup (treeOrder g) name))
             (entered g s name) of
        None \<Rightarrow> None
      | Some (Some err, s5) \<Rightarrow> Some (Some err, s5)
      | Some (None, s5) \<Rightarrow> Some (None, s5\<lparr>path := path s5 - {name}\<rparr>))"
proof -
  have "visit g (s\<lparr>visited := StringSet_Add (visited s) name,
                  path := StringSet_Add (path s) name\<rparr>) name\<lparr>ranges := Suc (ranges s)\<rparr>
        = entered g s name"
    by (simp add: visit_def createWaitGroupForDependents_def entered_def StringSet_Add_def)
  moreover have "ranges (visit g (s\<lparr>visited := StringSet_Add (visited s) name,
                  path := StringSet_Add (path s) name\<rparr>) name) = ranges s"
    by (simp add: visit_def createWaitGroupForDependents_def)
  ultimately show ?thesis
    by (simp add: Let_def Remove_def split: option.split prod.split)
qed

definition polled :: "nat option \<Rightarrow> search \<Rightarrow> search" where
  "polled ca s = s\<lparr>polls := Suc (polls s), ctxDone := ctxDone s \<or> ca = Some (Suc (polls s))\<rparr>"


lemma dfsChildren_Cons:
  "dfsChildren n rng ca g name (child # rest) s =
     (if child \<in> path s then Some (Some CycleDetected, s)
      else if child \<in> visited s then dfsChildren n rng ca g name rest s
      else if ctxDone s then dfsChildren n rng ca g name rest (polled ca s)
      else
        (case dfsResolve n rng ca g child (polled ca s) of
           None \<Rightarrow> None
         | Some (Some err, s2) \<Rightarrow> Some (Some err, s2)
         | Some (None, s2) \<Rightarrow> dfsChildren n rng ca g name rest s2))"
  by (simp add: Contains_def searchContextDone_def polled_def)

declare dfsResolve.simps(2) [simp del]
declare dfsChildren.simps(2) [simp del]


definition struct_ok :: "search \<Rightarrow> bool" where
  "struct_ok s \<longleftrightarrow>
     length (groups s) = length (tasks s) \<and>
     distinct (map tname (tasks s)) \<and>
     set (map tname (tasks s)) = visited s \<and>
     (\<forall>i < length (tasks s). twg (tasks s ! i) = i \<and> waits s (tname (tasks s ! i)) = Some i) \<and>
     (\<forall>n j. waits s n = Some j \<longrightarrow> j < length (tasks s) \<and> tname (tasks s ! j) = n)"

definition fresh_ok :: "'a Graph \<Rightarrow> search \<Rightarrow> bool" where
  "fresh_ok g s \<longleftrightarrow>
     (\<forall>i < length (tasks s). tpc (tasks s ! i) = Spawned \<and>
         groups s ! i = int (len (lookup (treeOrder g) (tname (tasks s ! i))))) \<and>
     wg s = int (length (tasks s)) \<and> log s = [] \<and>
     enter s = Map.empty \<and> start s = Map.empty \<and> finish s = Map.empty \<and> exit s = Map.empty \<and>
     \<not> panicked s \<and> now s = 0"

definition walk_ok :: "'a Graph \<Rightarrow> search \<Rightarrow> bool" where
  "walk_ok g s \<longleftrightarrow>
     struct_ok s \<and> fresh_ok g s \<and> path s \<subseteq> visited s \<and> dfsWait s = 1 \<and> \<not> watcher s"

lemma walk_ok_newSearch: "walk_ok g (newSearch ca)"
  by (simp add: walk_ok_def struct_ok_def fresh_ok_def newSearch_def)

lemma struct_ok_entered:
  assumes "struct_ok s" and "name \<notin> visited s"
  shows "struct_ok (entered g s name)"
proof -
  from assms have len: "length (groups s) = length (tasks s)"
    and dist: "distinct (map tname (tasks s))"
    and names: "set (map tname (tasks s)) = visited s"
    and idx: "\<forall>i < length (tasks s). twg (tasks s ! i) = i \<and> waits s (tname (tasks s ! i)) = Some i"
    and inv: "\<forall>n j. waits s n = Some j \<longrightarrow> j < length (tasks s) \<and> tname (tasks s ! j) = n"
    by (simp_all add: struct_ok_def)
  have notin: "\<forall>i < length (tasks s). tname (tasks s ! i) \<noteq> name"
    using names assms(2) by (metis length_map nth_map nth_mem)
  show ?thesis
    unfolding struct_ok_def entered_def
    using len dist names idx inv notin assms(2)
    by (auto simp: nth_append less_Suc_eq)
qed

lemma fresh_ok_entered:
  assumes "fresh_ok g s" and "length (groups s) = length (tasks s)"
  shows "fresh_ok g (entered g s name)"
  using assms unfolding fresh_ok_def entered_def
  by (auto simp: nth_append less_Suc_eq)

lemma walk_ok_entered:
  "walk_ok g s \<Longrightarrow> name \<notin> visited s \<Longrightarrow> walk_ok g (entered g s name)"
proof -
  assume ok: "walk_ok g s" and new: "name \<notin> visited s"
  from ok have 1: "struct_ok s" and 2: "fresh_ok g s" and 3: "path s \<subseteq> visited s"
    by (simp_all add: walk_ok_def)
  from 1 have len: "length (groups s) = length (tasks s)" by (simp add: struct_ok_def)
  have "path (entered g s name) \<subseteq> visited (entered g s name)"
    using 3 by (auto simp: entered_def)
  moreover have "dfsWait (entered g s name) = 1 \<and> \<not> watcher (entered g s name)"
    using ok by (simp add: walk_ok_def entered_def)
  ultimately show ?thesis
    using struct_ok_entered [OF 1 new] fresh_ok_entered [OF 2 len]
    by (simp add: walk_ok_def)
qed

lemma walk_ok_polled: "walk_ok g s \<Longrightarrow> walk_ok g (polled ca s)"
  by (simp add: walk_ok_def struct_ok_def fresh_ok_def polled_def)

lemma walk_ok_leave: "walk_ok g s \<Longrightarrow> walk_ok g (s\<lparr>path := path s - {name}\<rparr>)"
  by (auto simp add: walk_ok_def struct_ok_def fresh_ok_def)

lemma visited_entered [simp]: "visited (entered g s name) = insert name (visited s)"
  by (simp add: entered_def)

lemma path_entered [simp]: "path (entered g s name) = insert name (path s)"
  by (simp add: entered_def)

lemma ctxDone_entered [simp]: "ctxDone (entered g s name) = ctxDone s"
  by (simp add: entered_def)

lemma visited_polled [simp]: "visited (polled ca s) = visited s"
  by (simp add: polled_def)

lemma path_polled [simp]: "path (polled ca s) = path s"
  by (simp add: polled_def)

lemma ctxDone_polled: "ctxDone (polled ca s) \<longleftrightarrow> ctxDone s \<or> ca = Some (Suc (polls s))"
  by (simp add: polled_def)

definition walk_post :: "'a Graph \<Rightarrow> nat option \<Rightarrow> string \<Rightarrow> search \<Rightarrow> error option \<Rightarrow> search \<Rightarrow> bool" where
  "walk_post g ca name s r s' \<longleftrightarrow>
     walk_ok g s' \<and> visited s \<subseteq> visited s' \<and>
     visited s' \<subseteq> visited s \<union> (edges g)\<^sup>* `` {name} \<and>
     (r = None \<longrightarrow> path s' = path s) \<and>
     (\<forall>e. r = Some e \<longrightarrow> e = CycleDetected \<and> (\<exists>x. (name, x) \<in> (edges g)\<^sup>* \<and> (x, x) \<in> (edges g)\<^sup>+)) \<and>
     (ctxDone s \<longrightarrow> ctxDone s') \<and>
     (ca = None \<longrightarrow> ctxDone s' = ctxDone s)"

lemma walk_post_refl: "walk_ok g s \<Longrightarrow> walk_post g ca name s None s"
  by (simp add: walk_post_def)

lemma walk_post_trans:
  "walk_post g ca name s None s1 \<Longrightarrow> walk_post g ca name s1 r s2 \<Longrightarrow> walk_post g ca name s r s2"
  unfolding walk_post_def by auto

lemma walk_post_child:
  assumes "(name, child) \<in> edges g" and "walk_post g ca child s r s'"
  shows "walk_post g ca name s r s'"
proof -
  have sub: "(edges g)\<^sup>* `` {child} \<subseteq> (edges g)\<^sup>* `` {name}"
    using assms(1) by (auto intro: converse_rtrancl_into_rtrancl)
  have "\<And>x. (child, x) \<in> (edges g)\<^sup>* \<Longrightarrow> (name, x) \<in> (edges g)\<^sup>*"
    using assms(1) by (auto intro: converse_rtrancl_into_rtrancl)
  then show ?thesis
    using assms(2) sub unfolding walk_post_def by blast
qed

lemma dfsChildren_walk:
  assumes IH: "\<And>child s r s'. dfsResolve n rng ca g child s = Some (r, s') \<Longrightarrow> walk_ok g s \<Longrightarrow>
        child \<notin> visited s \<Longrightarrow> (\<forall>p\<in>path s. (p, child) \<in> (edges g)\<^sup>*) \<Longrightarrow>
        walk_post g ca child s r s'"
  shows "dfsChildren n rng ca g name cs s = Some (r, s') \<Longrightarrow> walk_ok g s \<Longrightarrow> name \<in> path s \<Longrightarrow>
        (\<forall>p\<in>path s. (p, name) \<in> (edges g)\<^sup>*) \<Longrightarrow> set cs \<subseteq> lookup (treeOrder g) name \<Longrightarrow>
        walk_post g ca name s r s'"
proof (induction cs arbitrary: s)
  case Nil
  then show ?case by (simp add: walk_post_refl)
next
  case (Cons child rest)
  have edge: "(name, child) \<in> edges g"
    using Cons.prems(5) by (simp add: edges_def)
  show ?case
  proof (cases "child \<in> path s")
    case True
    with Cons.prems(1) have r: "r = Some CycleDetected" and s': "s' = s"
      by (simp_all add: dfsChildren_Cons)
    from True Cons.prems(4) have "(child, name) \<in> (edges g)\<^sup>*" by blast
    with edge have "(child, child) \<in> (edges g)\<^sup>+"
      by (meson rtrancl_into_trancl1)
    moreover have "(name, child) \<in> (edges g)\<^sup>*" using edge by blast
    ultimately show ?thesis
      using r s' Cons.prems(2) unfolding walk_post_def by blast
  next
    case notpath: False
    show ?thesis
    proof (cases "child \<in> visited s")
      case True
      with notpath Cons.prems(1) have "dfsChildren n rng ca g name rest s = Some (r, s')"
        by (simp add: dfsChildren_Cons)
      then show ?thesis
        using Cons.IH Cons.prems by simp
    next
      case unvisited: False
      have okp: "walk_ok g (polled ca s)"
        using Cons.prems(2) by (rule walk_ok_polled)
      have step: "walk_post g ca name s None (polled ca s)"
        using okp unfolding walk_post_def by (auto simp: ctxDone_polled)
      show ?thesis
      proof (cases "ctxDone s")
        case True
        with notpath unvisited Cons.prems(1)
        have "dfsChildren n rng ca g name rest (polled ca s) = Some (r, s')"
          by (simp add: dfsChildren_Cons)
        then have "walk_post g ca name (polled ca s) r s'"
          using Cons.IH [of "polled ca s"] okp Cons.prems by simp
        with step show ?thesis by (rule walk_post_trans)
      next
        case live: False
        with notpath unvisited Cons.prems(1)
        have eq: "(case dfsResolve n rng ca g child (polled ca s) of
                 None \<Rightarrow> None
               | Some (Some err, s2) \<Rightarrow> Some (Some err, s2)
               | Some (None, s2) \<Rightarrow> dfsChildren n rng ca g name rest s2) = Some (r, s')"
          by (simp add: dfsChildren_Cons)
        then obtain r1 s2 where rec: "dfsResolve n rng ca g child (polled ca s) = Some (r1, s2)"
          by (cases "dfsResolve n rng ca g child (polled ca s)") auto
        have reach: "\<forall>p\<in>path (polled ca s). (p, child) \<in> (edges g)\<^sup>*"
          using Cons.prems(4) edge by (auto intro: rtrancl_into_rtrancl)
        have post1: "walk_post g ca child (polled ca s) r1 s2"
          using IH [OF rec okp] unvisited reach by simp
        have post1': "walk_post g ca name (polled ca s) r1 s2"
          using edge post1 by (rule walk_post_child)
        show ?thesis
        proof (cases r1)
          case None
          with eq rec have rest: "dfsChildren n rng ca g name rest s2 = Some (r, s')" by simp
          from post1 None have p2: "path s2 = path s" and ok2: "walk_ok g s2"
            by (simp_all add: walk_post_def)
          have "walk_post g ca name s2 r s'"
            using Cons.IH [OF rest ok2] p2 Cons.prems by simp
          with post1' None have "walk_post g ca name (polled ca s) r s'"
            using walk_post_trans by blast
          with step show ?thesis by (rule walk_post_trans)
        next
          case (Some err)
          with eq rec have "r = r1" and "s' = s2" by simp_all
          with post1' have "walk_post g ca name (polled ca s) r s'" by simp
          with step show ?thesis by (rule walk_post_trans)
        qed
      qed
    qed
  qed
qed


lemma dfsResolve_walk:
  assumes wf: "wf_graph g" and rng: "\<forall>i. range_ok (rng i)"
  shows "dfsResolve n rng ca g name s = Some (r, s') \<Longrightarrow> walk_ok g s \<Longrightarrow>
        name \<notin> visited s \<Longrightarrow> (\<forall>p\<in>path s. (p, name) \<in> (edges g)\<^sup>*) \<Longrightarrow>
        walk_post g ca name s r s' \<and> name \<in> visited s'"
proof (induction n arbitrary: name s r s')
  case 0
  then show ?case by simp
next
  case (Suc n)
  let ?cs = "rng (ranges s) (lookup (treeOrder g) name)"
  let ?s4 = "entered g s name"
  have cs: "set ?cs \<subseteq> lookup (treeOrder g) name"
    using rng wf by (simp add: range_ok_set wf_finite_treeOrder)
  have ok4: "walk_ok g ?s4"
    using Suc.prems(2,3) by (rule walk_ok_entered)
  have reach4: "\<forall>p\<in>path ?s4. (p, name) \<in> (edges g)\<^sup>*"
    using Suc.prems(4) by simp
  have notpath: "name \<notin> path s"
    using Suc.prems(2,3) by (auto simp: walk_ok_def)
  from Suc.prems(1) obtain r5 s5 where
    ch: "dfsChildren n rng ca g name ?cs ?s4 = Some (r5, s5)"
    by (cases "dfsChildren n rng ca g name ?cs ?s4") (auto simp: dfsResolve_Suc)
  have post: "walk_post g ca name ?s4 r5 s5"
  proof (rule dfsChildren_walk [OF _ ch ok4 _ reach4 cs])
    fix child t q t'
    assume "dfsResolve n rng ca g child t = Some (q, t')" "walk_ok g t" "child \<notin> visited t"
      "\<forall>p\<in>path t. (p, child) \<in> (edges g)\<^sup>*"
    then show "walk_post g ca child t q t'"
      using Suc.IH by blast
  qed simp
  show ?case
  proof (cases r5)
    case None
    with ch Suc.prems(1) have s': "s' = s5\<lparr>path := path s5 - {name}\<rparr>" and r: "r = None"
      by (simp_all add: dfsResolve_Suc)
    from post None have p5: "path s5 = insert name (path s)"
      by (simp add: walk_post_def)
    from post have "walk_ok g s5" by (simp add: walk_post_def)
    then have "walk_ok g s'" unfolding s' by (rule walk_ok_leave)
    moreover have "path s' = path s"
      using s' p5 notpath by simp
    moreover have "visited s' = visited s5" using s' by simp
    moreover have "ctxDone s' = ctxDone s5" using s' by simp
    ultimately show ?thesis
      using post r unfolding walk_post_def by auto
  next
    case (Some err)
    with ch Suc.prems(1) have "s' = s5" and "r = r5"
      by (simp_all add: dfsResolve_Suc)
    then show ?thesis
      using post Some unfolding walk_post_def by auto
  qed
qed




lemma walk_post_ok: "walk_post g ca name s r s' \<Longrightarrow> walk_ok g s'"
  by (simp add: walk_post_def)

lemma walk_post_visited: "walk_post g ca name s r s' \<Longrightarrow> visited s \<subseteq> visited s'"
  by (simp add: walk_post_def)

lemma walk_post_path: "walk_post g ca name s None s' \<Longrightarrow> path s' = path s"
  by (simp add: walk_post_def)

lemma card_unvisited_mono:
  "finite A \<Longrightarrow> V \<subseteq> V' \<Longrightarrow> card (A - V') \<le> card (A - V)"
  by (rule card_mono) auto

lemma dfsChildren_fuel:
  assumes wf: "wf_graph g" and rng: "\<forall>i. range_ok (rng i)"
    and IH: "\<And>child s. walk_ok g s \<Longrightarrow> child \<in> dom (actions g) \<Longrightarrow> child \<notin> visited s \<Longrightarrow>
        (\<forall>p\<in>path s. (p, child) \<in> (edges g)\<^sup>*) \<Longrightarrow>
        card (dom (actions g) - visited s) \<le> n \<Longrightarrow>
        dfsResolve n rng ca g child s \<noteq> None"
  shows "walk_ok g s \<Longrightarrow> name \<in> path s \<Longrightarrow> (\<forall>p\<in>path s. (p, name) \<in> (edges g)\<^sup>*) \<Longrightarrow>
        set cs \<subseteq> lookup (treeOrder g) name \<Longrightarrow>
        card (dom (actions g) - visited s) \<le> n \<Longrightarrow>
        dfsChildren n rng ca g name cs s \<noteq> None"
proof (induction cs arbitrary: s)
  case Nil
  then show ?case by simp
next
  case (Cons child rest)
  have edge: "(name, child) \<in> edges g"
    using Cons.prems(4) by (simp add: edges_def)
  have reg: "child \<in> dom (actions g)"
    using Cons.prems(4) wf_treeOrder_subset [OF wf] by auto
  have okp: "walk_ok g (polled ca s)"
    using Cons.prems(1) by (rule walk_ok_polled)
  have rest: "dfsChildren n rng ca g name rest s \<noteq> None"
    using Cons.IH Cons.prems by simp
  have restp: "dfsChildren n rng ca g name rest (polled ca s) \<noteq> None"
    using Cons.IH [of "polled ca s"] okp Cons.prems by simp
  show ?case
  proof (cases "child \<in> path s \<or> child \<in> visited s \<or> ctxDone s")
    case True
    then show ?thesis
      using rest restp by (auto simp: dfsChildren_Cons)
  next
    case False
    have reach: "\<forall>p\<in>path (polled ca s). (p, child) \<in> (edges g)\<^sup>*"
      using Cons.prems(3) edge by (auto intro: rtrancl_into_rtrancl)
    have "dfsResolve n rng ca g child (polled ca s) \<noteq> None"
      using IH [OF okp reg _ reach] False Cons.prems(5) by simp
    then obtain r1 s2 where rec: "dfsResolve n rng ca g child (polled ca s) = Some (r1, s2)"
      by (cases "dfsResolve n rng ca g child (polled ca s)") auto
    have post: "walk_post g ca child (polled ca s) r1 s2"
      using dfsResolve_walk [OF wf rng rec okp _ reach] False by simp
    show ?thesis
    proof (cases r1)
      case None
      have ok2: "walk_ok g s2" using post by (rule walk_post_ok)
      have p2: "path s2 = path s" using post None by (simp add: walk_post_def)
      have "visited s \<subseteq> visited s2" using walk_post_visited [OF post] by simp
      then have "card (dom (actions g) - visited s2) \<le> card (dom (actions g) - visited s)"
        using wf_finite_actions [OF wf] by (simp add: card_unvisited_mono)
      then have "dfsChildren n rng ca g name rest s2 \<noteq> None"
        using Cons.IH [OF ok2] p2 Cons.prems by simp
      then show ?thesis
        using False rec None by (simp add: dfsChildren_Cons)
    next
      case (Some err)
      then show ?thesis
        using False rec by (simp add: dfsChildren_Cons)
    qed
  qed
qed

lemma dfsResolve_fuel:
  assumes wf: "wf_graph g" and rng: "\<forall>i. range_ok (rng i)"
  shows "walk_ok g s \<Longrightarrow> name \<in> dom (actions g) \<Longrightarrow> name \<notin> visited s \<Longrightarrow>
        (\<forall>p\<in>path s. (p, name) \<in> (edges g)\<^sup>*) \<Longrightarrow>
        card (dom (actions g) - visited s) \<le> n \<Longrightarrow>
        dfsResolve n rng ca g name s \<noteq> None"
proof (induction n arbitrary: name s)
  case 0
  have "name \<in> dom (actions g) - visited s" using 0 by simp
  then have "card (dom (actions g) - visited s) \<noteq> 0"
    using wf_finite_actions [OF wf] by auto
  with 0 show ?case by simp
next
  case (Suc n)
  let ?cs = "rng (ranges s) (lookup (treeOrder g) name)"
  let ?s4 = "entered g s name"
  have cs: "set ?cs \<subseteq> lookup (treeOrder g) name"
    using rng wf by (simp add: range_ok_set wf_finite_treeOrder)
  have ok4: "walk_ok g ?s4"
    using Suc.prems(1,3) by (rule walk_ok_entered)
  have reach4: "\<forall>p\<in>path ?s4. (p, name) \<in> (edges g)\<^sup>*"
    using Suc.prems(4) by simp
  have "dom (actions g) - visited ?s4 = (dom (actions g) - visited s) - {name}"
    by auto
  moreover have "name \<in> dom (actions g) - visited s" using Suc.prems by simp
  ultimately have "card (dom (actions g) - visited ?s4) = card (dom (actions g) - visited s) - 1"
    using wf_finite_actions [OF wf] by simp
  then have card4: "card (dom (actions g) - visited ?s4) \<le> n"
    using Suc.prems(5) by simp
  have "dfsChildren n rng ca g name ?cs ?s4 \<noteq> None"
  proof (rule dfsChildren_fuel [OF wf rng _ ok4 _ reach4 cs card4])
    fix child t
    assume "walk_ok g t" "child \<in> dom (actions g)" "child \<notin> visited t"
      "\<forall>p\<in>path t. (p, child) \<in> (edges g)\<^sup>*" "card (dom (actions g) - visited t) \<le> n"
    then show "dfsResolve n rng ca g child t \<noteq> None"
      by (rule Suc.IH)
  qed simp
  then show ?case
    by (auto simp: dfsResolve_Suc split: option.splits)
qed


text \<open>
  With a signal that stays live, the names that were visited and have left the path are
  closed under prerequisites and lie on no cycle.
\<close>

definition settled :: "search \<Rightarrow> string set" where
  "settled s = visited s - path s"

definition live_ok :: "'a Graph \<Rightarrow> search \<Rightarrow> bool" where
  "live_ok g s \<longleftrightarrow>
     \<not> ctxDone s \<and>
     (\<forall>b\<in>settled s. lookup (treeOrder g) b \<subseteq> settled s) \<and>
     (\<forall>b\<in>settled s. (b, b) \<notin> (edges g)\<^sup>+)"

lemma settled_closed_rtrancl:
  assumes "\<forall>b\<in>B. lookup (treeOrder g) b \<subseteq> B" and "(b, x) \<in> (edges g)\<^sup>*" and "b \<in> B"
  shows "x \<in> B"
  using assms(2,3)
proof (induction rule: rtrancl_induct)
  case base
  then show ?case by simp
next
  case (step y z)
  then show ?case using assms(1) by (auto simp: edges_def)
qed

lemma settled_polled [simp]: "settled (polled ca s) = settled s"
  by (simp add: settled_def)

lemma live_ok_polled: "live_ok g s \<Longrightarrow> live_ok g (polled None s)"
  by (simp add: live_ok_def ctxDone_polled)

lemma walk_post_settled:
  "walk_post g ca name s None s' \<Longrightarrow> settled s \<subseteq> settled s'"
  unfolding walk_post_def settled_def by auto

lemma dfsChildren_live:
  assumes IH: "\<And>child s s'. dfsResolve n rng None g child s = Some (None, s') \<Longrightarrow>
        walk_ok g s \<Longrightarrow> child \<notin> visited s \<Longrightarrow> (\<forall>p\<in>path s. (p, child) \<in> (edges g)\<^sup>*) \<Longrightarrow>
        live_ok g s \<Longrightarrow>
        walk_post g None child s None s' \<and> live_ok g s' \<and> child \<in> settled s'"
  shows "dfsChildren n rng None g name cs s = Some (None, s') \<Longrightarrow> walk_ok g s \<Longrightarrow>
        name \<in> path s \<Longrightarrow> (\<forall>p\<in>path s. (p, name) \<in> (edges g)\<^sup>*) \<Longrightarrow>
        set cs \<subseteq> lookup (treeOrder g) name \<Longrightarrow> live_ok g s \<Longrightarrow>
        live_ok g s' \<and> set cs \<subseteq> settled s' \<and> settled s \<subseteq> settled s' \<and>
        path s' = path s \<and> walk_ok g s'"
proof (induction cs arbitrary: s)
  case Nil
  then show ?case by simp
next
  case (Cons child rest)
  have edge: "(name, child) \<in> edges g"
    using Cons.prems(5) by (simp add: edges_def)
  have live: "\<not> ctxDone s" using Cons.prems(6) by (simp add: live_ok_def)
  have notpath: "child \<notin> path s"
    using Cons.prems(1) by (auto simp: dfsChildren_Cons split: if_splits)
  show ?case
  proof (cases "child \<in> visited s")
    case True
    with notpath Cons.prems(1) have "dfsChildren n rng None g name rest s = Some (None, s')"
      by (simp add: dfsChildren_Cons)
    then have *: "live_ok g s' \<and> set rest \<subseteq> settled s' \<and> settled s \<subseteq> settled s' \<and>
        path s' = path s \<and> walk_ok g s'"
      using Cons.IH Cons.prems by simp
    moreover have "child \<in> settled s"
      using True notpath by (simp add: settled_def)
    ultimately show ?thesis by auto
  next
    case unvisited: False
    let ?p = "polled None s"
    have okp: "walk_ok g ?p"
      using Cons.prems(2) by (rule walk_ok_polled)
    have livep: "live_ok g ?p"
      using Cons.prems(6) by (rule live_ok_polled)
    have reach: "\<forall>p\<in>path ?p. (p, child) \<in> (edges g)\<^sup>*"
      using Cons.prems(4) edge by (auto intro: rtrancl_into_rtrancl)
    from notpath unvisited live Cons.prems(1)
    have eq: "(case dfsResolve n rng None g child ?p of
             None \<Rightarrow> None
           | Some (Some err, s2) \<Rightarrow> Some (Some err, s2)
           | Some (None, s2) \<Rightarrow> dfsChildren n rng None g name rest s2) = Some (None, s')"
      by (simp add: dfsChildren_Cons)
    then obtain s2 where rec: "dfsResolve n rng None g child ?p = Some (None, s2)"
      and rest: "dfsChildren n rng None g name rest s2 = Some (None, s')"
      by (auto split: option.splits prod.splits)
    have post: "walk_post g None child ?p None s2 \<and> live_ok g s2 \<and> child \<in> settled s2"
      using IH [OF rec okp _ reach livep] unvisited by simp
    then have ok2: "walk_ok g s2" and p2: "path s2 = path s"
      and mono: "settled s \<subseteq> settled s2"
      using walk_post_settled [of g None child ?p s2]
      by (simp_all add: walk_post_def)
    have *: "live_ok g s' \<and> set rest \<subseteq> settled s' \<and> settled s2 \<subseteq> settled s' \<and>
        path s' = path s2 \<and> walk_ok g s'"
      using Cons.IH [OF rest ok2] p2 Cons.prems post by simp
    then show ?thesis
      using post mono p2 by auto
  qed
qed

lemma dfsResolve_live:
  assumes wf: "wf_graph g" and rng: "\<forall>i. range_ok (rng i)"
  shows "dfsResolve n rng None g name s = Some (None, s') \<Longrightarrow> walk_ok g s \<Longrightarrow>
        name \<notin> visited s \<Longrightarrow> (\<forall>p\<in>path s. (p, name) \<in> (edges g)\<^sup>*) \<Longrightarrow> live_ok g s \<Longrightarrow>
        walk_post g None name s None s' \<and> live_ok g s' \<and> name \<in> settled s'"
proof (induction n arbitrary: name s s')
  case 0
  then show ?case by simp
next
  case (Suc n)
  let ?cs = "rng (ranges s) (lookup (treeOrder g) name)"
  let ?s4 = "entered g s name"
  have cs: "set ?cs = lookup (treeOrder g) name"
    using rng wf by (simp add: range_ok_set wf_finite_treeOrder)
  have ok4: "walk_ok g ?s4"
    using Suc.prems(2,3) by (rule walk_ok_entered)
  have reach4: "\<forall>p\<in>path ?s4. (p, name) \<in> (edges g)\<^sup>*"
    using Suc.prems(4) by simp
  have notpath: "name \<notin> path s"
    using Suc.prems(2,3) by (auto simp: walk_ok_def)
  have set4: "settled ?s4 = settled s"
    using Suc.prems(3) by (auto simp: settled_def)
  have live4: "live_ok g ?s4"
    using Suc.prems(5) set4 by (simp add: live_ok_def)
  have post: "walk_post g None name s None s'"
    using dfsResolve_walk [OF wf rng Suc.prems(1-4)] by simp
  from Suc.prems(1) obtain s5 where
    ch: "dfsChildren n rng None g name ?cs ?s4 = Some (None, s5)"
    and s': "s' = s5\<lparr>path := path s5 - {name}\<rparr>"
    by (auto simp: dfsResolve_Suc split: option.splits prod.splits)
  have five: "live_ok g s5 \<and> set ?cs \<subseteq> settled s5 \<and> settled ?s4 \<subseteq> settled s5 \<and>
        path s5 = path ?s4 \<and> walk_ok g s5"
  proof (rule dfsChildren_live [OF _ ch ok4 _ reach4 _ live4])
    fix child t t'
    assume "dfsResolve n rng None g child t = Some (None, t')" "walk_ok g t" "child \<notin> visited t"
      "\<forall>p\<in>path t. (p, child) \<in> (edges g)\<^sup>*" "live_ok g t"
    then show "walk_post g None child t None t' \<and> live_ok g t' \<and> child \<in> settled t'"
      by (rule Suc.IH)
  qed (simp_all add: cs)
  have p5: "path s5 = insert name (path s)" using five by simp
  have v5: "name \<in> visited s5"
    using five p5 by (auto simp: walk_ok_def)
  have set': "settled s' = insert name (settled s5)"
    using s' p5 v5 notpath by (auto simp: settled_def)
  have closed5: "\<forall>b\<in>settled s5. lookup (treeOrder g) b \<subseteq> settled s5"
    using five by (simp add: live_ok_def)
  have children: "lookup (treeOrder g) name \<subseteq> settled s5"
    using five cs by simp
  have notset: "name \<notin> settled s5"
    using p5 by (simp add: settled_def)
  have nocycle: "(name, name) \<notin> (edges g)\<^sup>+"
  proof
    assume "(name, name) \<in> (edges g)\<^sup>+"
    then obtain c where c: "(name, c) \<in> edges g" and cback: "(c, name) \<in> (edges g)\<^sup>*"
      by (meson tranclD)
    from c children have "c \<in> settled s5" by (auto simp: edges_def)
    with closed5 cback have "name \<in> settled s5"
      using settled_closed_rtrancl by blast
    with notset show False by simp
  qed
  have "live_ok g s'"
    unfolding live_ok_def set'
    using five s' children nocycle by (auto simp: live_ok_def)
  then show ?case
    using post set' by simp
qed


subsection \<open>The loop over the roots\<close>

lemma root_not_child:
  "wf_graph g \<Longrightarrow> lookup (graphOrder g) r = {} \<Longrightarrow> (x, r) \<notin> edges g"
  using wf_transposed by (fastforce simp: edges_def)

lemma root_reached_only_self:
  assumes "wf_graph g" and "lookup (graphOrder g) r = {}" and "(x, r) \<in> (edges g)\<^sup>*"
  shows "x = r"
  using assms(3) root_not_child [OF assms(1,2)] by (cases rule: rtranclE) auto

definition roots_post ::
    "'a Graph \<Rightarrow> nat option \<Rightarrow> string list \<Rightarrow> search \<Rightarrow> error option \<Rightarrow> search \<Rightarrow> bool" where
  "roots_post g ca roots s r s' \<longleftrightarrow>
     walk_ok g s' \<and> visited s \<subseteq> visited s' \<and>
     visited s' \<subseteq> visited s \<union> (edges g)\<^sup>* `` set roots \<and>
     (r = None \<longrightarrow> path s' = {} \<and> set roots \<subseteq> visited s') \<and>
     (\<forall>e. r = Some e \<longrightarrow> e = CycleDetected \<and>
        (\<exists>root\<in>set roots. \<exists>x. (root, x) \<in> (edges g)\<^sup>* \<and> (x, x) \<in> (edges g)\<^sup>+)) \<and>
     (ctxDone s \<longrightarrow> ctxDone s') \<and>
     (ca = None \<longrightarrow> ctxDone s' = ctxDone s)"

lemma resolveRoots_walk:
  assumes wf: "wf_graph g" and rng: "\<forall>i. range_ok (rng i)"
  shows "resolveRoots n rng ca g roots s = Some (r, s') \<Longrightarrow> walk_ok g s \<Longrightarrow> path s = {} \<Longrightarrow>
        distinct roots \<Longrightarrow> (\<forall>x\<in>set roots. lookup (graphOrder g) x = {}) \<Longrightarrow>
        set roots \<inter> visited s = {} \<Longrightarrow> roots_post g ca roots s r s'"
proof (induction roots arbitrary: s)
  case Nil
  then show ?case by (simp add: roots_post_def)
next
  case (Cons root rest)
  from Cons.prems(1) obtain r1 s1 where rec: "dfsResolve n rng ca g root s = Some (r1, s1)"
    by (cases "dfsResolve n rng ca g root s") auto
  have post: "walk_post g ca root s r1 s1 \<and> root \<in> visited s1"
    using dfsResolve_walk [OF wf rng rec Cons.prems(2)] Cons.prems(3,6) by simp
  show ?case
  proof (cases r1)
    case None
    with rec Cons.prems(1) have rest: "resolveRoots n rng ca g rest s1 = Some (r, s')" by simp
    have ok1: "walk_ok g s1" and p1: "path s1 = {}"
      using post None Cons.prems(3) by (simp_all add: walk_post_def)
    have v1: "visited s1 \<subseteq> visited s \<union> (edges g)\<^sup>* `` {root}"
      using post by (simp add: walk_post_def)
    have disj: "set rest \<inter> visited s1 = {}"
    proof -
      { fix x assume x: "x \<in> set rest" and "x \<in> visited s1"
        with v1 Cons.prems(6) have "(root, x) \<in> (edges g)\<^sup>*" by auto
        moreover have "lookup (graphOrder g) x = {}" using x Cons.prems(5) by simp
        ultimately have "root = x" using root_reached_only_self [OF wf] by blast
        with x Cons.prems(4) have False by simp }
      then show ?thesis by blast
    qed
    have rp: "roots_post g ca rest s1 r s'"
      using Cons.IH [OF rest ok1 p1] Cons.prems(4,5) disj by simp
    have m1: "visited s \<subseteq> visited s1" and r1v: "root \<in> visited s1"
      and c1: "ctxDone s \<longrightarrow> ctxDone s1" and l1: "ca = None \<longrightarrow> ctxDone s1 = ctxDone s"
      using post by (simp_all add: walk_post_def)
    have a: "walk_ok g s'" using rp by (simp add: roots_post_def)
    have m2: "visited s1 \<subseteq> visited s'" using rp by (simp add: roots_post_def)
    have v2: "visited s' \<subseteq> visited s1 \<union> (edges g)\<^sup>* `` set rest"
      using rp by (simp add: roots_post_def)
    have b: "visited s \<subseteq> visited s'" using m1 m2 by blast
    have c: "visited s' \<subseteq> visited s \<union> (edges g)\<^sup>* `` set (root # rest)"
      using v1 v2 by auto
    have d: "r = None \<longrightarrow> path s' = {} \<and> set (root # rest) \<subseteq> visited s'"
      using rp r1v m2 by (auto simp: roots_post_def)
    have e: "\<forall>e. r = Some e \<longrightarrow> e = CycleDetected \<and>
        (\<exists>root\<in>set (root # rest). \<exists>x. (root, x) \<in> (edges g)\<^sup>* \<and> (x, x) \<in> (edges g)\<^sup>+)"
      using rp unfolding roots_post_def by (metis list.set_intros(2))
    have f: "ctxDone s \<longrightarrow> ctxDone s'" using rp c1 by (simp add: roots_post_def)
    have h: "ca = None \<longrightarrow> ctxDone s' = ctxDone s" using rp l1 by (simp add: roots_post_def)
    show ?thesis
      unfolding roots_post_def using a b c d e f h by blast
  next
    case (Some err)
    with rec Cons.prems(1) have eq: "r = r1" "s' = s1" by simp_all
    have "\<exists>x. (root, x) \<in> (edges g)\<^sup>* \<and> (x, x) \<in> (edges g)\<^sup>+" and "err = CycleDetected"
      using post Some by (simp_all add: walk_post_def)
    then have e: "\<forall>e. r = Some e \<longrightarrow> e = CycleDetected \<and>
        (\<exists>root\<in>set (root # rest). \<exists>x. (root, x) \<in> (edges g)\<^sup>* \<and> (x, x) \<in> (edges g)\<^sup>+)"
      using eq Some by auto
    have c: "visited s' \<subseteq> visited s \<union> (edges g)\<^sup>* `` set (root # rest)"
      using post eq by (auto simp: walk_post_def)
    show ?thesis
      unfolding roots_post_def using post eq Some e c by (simp add: walk_post_def)
  qed
qed

lemma resolveRoots_fuel:
  assumes wf: "wf_graph g" and rng: "\<forall>i. range_ok (rng i)"
  shows "walk_ok g s \<Longrightarrow> path s = {} \<Longrightarrow>
        distinct roots \<Longrightarrow> (\<forall>x\<in>set roots. lookup (graphOrder g) x = {}) \<Longrightarrow>
        set roots \<inter> visited s = {} \<Longrightarrow> set roots \<subseteq> dom (actions g) \<Longrightarrow>
        card (dom (actions g) - visited s) \<le> n \<Longrightarrow>
        resolveRoots n rng ca g roots s \<noteq> None"
proof (induction roots arbitrary: s)
  case Nil
  then show ?case by simp
next
  case (Cons root rest)
  have "dfsResolve n rng ca g root s \<noteq> None"
    using dfsResolve_fuel [OF wf rng Cons.prems(1)] Cons.prems by simp
  then obtain r1 s1 where rec: "dfsResolve n rng ca g root s = Some (r1, s1)"
    by (cases "dfsResolve n rng ca g root s") auto
  show ?case
  proof (cases r1)
    case None
    have "resolveRoots n rng ca g [root] s = Some (None, s1)"
      using rec None by simp
    then have post: "roots_post g ca [root] s None s1"
      using resolveRoots_walk [OF wf rng _ Cons.prems(1,2)] Cons.prems by simp
    then have ok1: "walk_ok g s1" and p1: "path s1 = {}" and mono: "visited s \<subseteq> visited s1"
      and v1: "visited s1 \<subseteq> visited s \<union> (edges g)\<^sup>* `` {root}"
      by (simp_all add: roots_post_def)
    have disj: "set rest \<inter> visited s1 = {}"
    proof -
      { fix x assume x: "x \<in> set rest" and "x \<in> visited s1"
        with v1 Cons.prems(5) have "(root, x) \<in> (edges g)\<^sup>*" by auto
        moreover have "lookup (graphOrder g) x = {}" using x Cons.prems(4) by simp
        ultimately have "root = x" using root_reached_only_self [OF wf] by blast
        with x Cons.prems(3) have False by simp }
      then show ?thesis by blast
    qed
    have "card (dom (actions g) - visited s1) \<le> card (dom (actions g) - visited s)"
      using mono wf_finite_actions [OF wf] by (simp add: card_unvisited_mono)
    then have "resolveRoots n rng ca g rest s1 \<noteq> None"
      using Cons.IH [OF ok1 p1] Cons.prems disj by simp
    then show ?thesis using rec None by simp
  next
    case (Some err)
    then show ?thesis using rec by simp
  qed
qed

lemma resolveRoots_live:
  assumes wf: "wf_graph g" and rng: "\<forall>i. range_ok (rng i)"
  shows "resolveRoots n rng None g roots s = Some (None, s') \<Longrightarrow> walk_ok g s \<Longrightarrow> path s = {} \<Longrightarrow>
        distinct roots \<Longrightarrow> (\<forall>x\<in>set roots. lookup (graphOrder g) x = {}) \<Longrightarrow>
        set roots \<inter> visited s = {} \<Longrightarrow> live_ok g s \<Longrightarrow> live_ok g s'"
proof (induction roots arbitrary: s)
  case Nil
  then show ?case by simp
next
  case (Cons root rest)
  from Cons.prems(1) obtain s1 where rec: "dfsResolve n rng None g root s = Some (None, s1)"
    and rest: "resolveRoots n rng None g rest s1 = Some (None, s')"
    by (auto split: option.splits prod.splits)
  have live1: "live_ok g s1"
    using dfsResolve_live [OF wf rng rec Cons.prems(2)] Cons.prems by simp
  have "resolveRoots n rng None g [root] s = Some (None, s1)"
    using rec by simp
  then have post: "roots_post g None [root] s None s1"
    using resolveRoots_walk [OF wf rng _ Cons.prems(2,3)] Cons.prems by simp
  then have ok1: "walk_ok g s1" and p1: "path s1 = {}"
    and v1: "visited s1 \<subseteq> visited s \<union> (edges g)\<^sup>* `` {root}"
    by (simp_all add: roots_post_def)
  have disj: "set rest \<inter> visited s1 = {}"
  proof -
    { fix x assume x: "x \<in> set rest" and "x \<in> visited s1"
      with v1 Cons.prems(6) have "(root, x) \<in> (edges g)\<^sup>*" by auto
      moreover have "lookup (graphOrder g) x = {}" using x Cons.prems(5) by simp
      ultimately have "root = x" using root_reached_only_self [OF wf] by blast
      with x Cons.prems(4) have False by simp }
    then show ?thesis by blast
  qed
  show ?case
    using Cons.IH [OF rest ok1 p1 _ _ disj live1] Cons.prems(4,5) by simp
qed




subsection \<open>What Resolve returns\<close>

definition started_ok :: "'a Graph \<Rightarrow> search \<Rightarrow> bool" where
  "started_ok g s \<longleftrightarrow> struct_ok s \<and> fresh_ok g s \<and> dfsWait s = 0"

definition is_root :: "'a Graph \<Rightarrow> string \<Rightarrow> bool" where
  "is_root g name \<longleftrightarrow> name \<in> dom (actions g) \<and> lookup (graphOrder g) name = {}"

lemma set_collectRoots_is_root:
  "wf_graph g \<Longrightarrow> range_ok order \<Longrightarrow> set (collectRoots order g) = {name. is_root g name}"
  by (auto simp: set_collectRoots is_root_def)

lemma live_ok_newSearch: "live_ok g (newSearch None)"
  by (simp add: live_ok_def newSearch_def settled_def)

lemma resolveRoots_newSearch:
  assumes wf: "wf_graph g" and rng: "\<forall>i. range_ok (rng i)"
  shows "\<exists>r s1. resolveRoots (card (dom (actions g))) rng ca g (collectRoots (rng 0) g)
            (newSearch ca) = Some (r, s1) \<and>
          roots_post g ca (collectRoots (rng 0) g) (newSearch ca) r s1 \<and>
          (ca = None \<longrightarrow> r = None \<longrightarrow> live_ok g s1)"
proof -
  let ?roots = "collectRoots (rng 0) g"
  let ?s = "newSearch ca"
  let ?n = "card (dom (actions g))"
  have ok0: "range_ok (rng 0)" using rng by simp
  have d: "distinct ?roots" using wf ok0 by (rule distinct_collectRoots)
  have sr: "set ?roots = {name \<in> dom (actions g). lookup (graphOrder g) name = {}}"
    using wf ok0 by (rule set_collectRoots)
  have w: "walk_ok g ?s" by (rule walk_ok_newSearch)
  have p: "path ?s = {}" and v: "visited ?s = {}" by (simp_all add: newSearch_def)
  have nd: "\<forall>x\<in>set ?roots. lookup (graphOrder g) x = {}" using sr by simp
  have "resolveRoots ?n rng ca g ?roots ?s \<noteq> None"
    using resolveRoots_fuel [OF wf rng w p d nd] sr v by auto
  then obtain r s1 where eq: "resolveRoots ?n rng ca g ?roots ?s = Some (r, s1)"
    by (cases "resolveRoots ?n rng ca g ?roots ?s") auto
  have post: "roots_post g ca ?roots ?s r s1"
    using resolveRoots_walk [OF wf rng eq w p d nd] v by simp
  have "ca = None \<longrightarrow> r = None \<longrightarrow> live_ok g s1"
    using resolveRoots_live [OF wf rng _ _ _ d nd, of ?n "newSearch None" s1] eq
      walk_ok_newSearch [of g None] live_ok_newSearch [of g]
    by (auto simp: newSearch_def)
  with eq post show ?thesis by blast
qed

lemma Resolve_unfold:
  "resolveRoots (card (dom (actions g))) rng ca g (collectRoots (rng 0) g) (newSearch ca)
     = Some (r, s1) \<Longrightarrow>
   Resolve rng ca g =
     Some (case r of
        Some err \<Rightarrow> (Some err, s1\<lparr>ctxDone := True, dfsWait := dfsWait s1 - 1\<rparr>)
      | None \<Rightarrow>
          if collectRoots (rng 0) g = []
          then (Some NoRoots, s1\<lparr>ctxDone := True, dfsWait := dfsWait s1 - 1\<rparr>)
          else (None, s1\<lparr>watcher := True, dfsWait := dfsWait s1 - 1\<rparr>))"
  by (simp add: Resolve_def ResolveN_def Let_def split: option.splits)

lemma started_ok_return:
  "walk_ok g s \<Longrightarrow> started_ok g (s\<lparr>ctxDone := c, dfsWait := dfsWait s - 1\<rparr>)"
  "walk_ok g s \<Longrightarrow> started_ok g (s\<lparr>watcher := w, dfsWait := dfsWait s - 1\<rparr>)"
  by (simp_all add: walk_ok_def started_ok_def struct_ok_def fresh_ok_def)

text \<open>
  What holds when \<^verbatim>\<open>Resolve\<close> returns, for every graph that the construction calls can
  make, every order of the range statements and every moment of cancellation.
\<close>

definition resolve_post ::
    "'a Graph \<Rightarrow> nat option \<Rightarrow> error option \<Rightarrow> search \<Rightarrow> bool" where
  "resolve_post g ca r s0 \<longleftrightarrow>
     started_ok g s0 \<and>
     visited s0 \<subseteq> (edges g)\<^sup>* `` {name. is_root g name} \<and>
     (r = None \<longrightarrow> watcher s0 \<and> {name. is_root g name} \<noteq> {} \<and>
        {name. is_root g name} \<subseteq> visited s0) \<and>
     (\<forall>e. r = Some e \<longrightarrow> ctxDone s0 \<and> \<not> watcher s0 \<and> (e = NoRoots \<or> e = CycleDetected)) \<and>
     (r = Some NoRoots \<longleftrightarrow> {name. is_root g name} = {}) \<and>
     (r = Some NoRoots \<longrightarrow> tasks s0 = []) \<and>
     (r = Some CycleDetected \<longrightarrow>
        (\<exists>root x. is_root g root \<and> (root, x) \<in> (edges g)\<^sup>* \<and> (x, x) \<in> (edges g)\<^sup>+)) \<and>
     (ca = Some 0 \<longrightarrow> ctxDone s0) \<and>
     (ca = None \<longrightarrow> r = None \<longrightarrow>
        \<not> ctxDone s0 \<and> visited s0 = (edges g)\<^sup>* `` {name. is_root g name} \<and>
        (\<forall>x\<in>visited s0. (x, x) \<notin> (edges g)\<^sup>+))"

lemma Resolve_post:
  assumes wf: "wf_graph g" and rng: "\<forall>i. range_ok (rng i)"
  shows "\<exists>r s0. Resolve rng ca g = Some (r, s0) \<and> resolve_post g ca r s0"
proof -
  let ?roots = "collectRoots (rng 0) g"
  let ?R = "{name. is_root g name}"
  have sr: "set ?roots = ?R"
    using wf rng by (simp add: set_collectRoots_is_root)
  obtain r s1 where eq: "resolveRoots (card (dom (actions g))) rng ca g ?roots (newSearch ca)
        = Some (r, s1)"
    and post: "roots_post g ca ?roots (newSearch ca) r s1"
    and live: "ca = None \<longrightarrow> r = None \<longrightarrow> live_ok g s1"
    using resolveRoots_newSearch [OF wf rng] by blast
  have ok1: "walk_ok g s1" and v1: "visited s1 \<subseteq> (edges g)\<^sup>* `` ?R"
    and n1: "r = None \<longrightarrow> path s1 = {} \<and> ?R \<subseteq> visited s1"
    and e1: "\<forall>e. r = Some e \<longrightarrow> e = CycleDetected \<and>
        (\<exists>root\<in>?R. \<exists>x. (root, x) \<in> (edges g)\<^sup>* \<and> (x, x) \<in> (edges g)\<^sup>+)"
    and c1: "ca = Some 0 \<longrightarrow> ctxDone s1" and l1: "ca = None \<longrightarrow> \<not> ctxDone s1"
    using post sr by (simp_all add: roots_post_def newSearch_def)
  have empty: "?roots = [] \<Longrightarrow> r = None \<and> tasks s1 = []"
    using eq by (auto simp: newSearch_def)
  have closed: "ca = None \<Longrightarrow> r = None \<Longrightarrow>
      visited s1 = (edges g)\<^sup>* `` ?R \<and> (\<forall>x\<in>visited s1. (x, x) \<notin> (edges g)\<^sup>+)"
  proof -
    assume "ca = None" "r = None"
    with live n1 have lv: "live_ok g s1" and p: "path s1 = {}" and sub: "?R \<subseteq> visited s1"
      by simp_all
    have st: "settled s1 = visited s1" using p by (simp add: settled_def)
    have cl: "\<forall>b\<in>visited s1. lookup (treeOrder g) b \<subseteq> visited s1"
      using lv st by (simp add: live_ok_def)
    have "(edges g)\<^sup>* `` ?R \<subseteq> visited s1"
      using settled_closed_rtrancl [OF cl] sub by blast
    with v1 lv st show ?thesis by (auto simp: live_ok_def)
  qed
  show ?thesis
  proof (cases r)
    case (Some err)
    let ?s0 = "s1\<lparr>ctxDone := True, dfsWait := dfsWait s1 - 1\<rparr>"
    have R: "Resolve rng ca g = Some (r, ?s0)"
      using Resolve_unfold [OF eq] Some by simp
    have ne: "?roots \<noteq> []" using empty Some by auto
    then have "?R \<noteq> {}" using sr by (metis set_empty)
    then have "resolve_post g ca r ?s0"
      unfolding resolve_post_def
      using Some e1 v1 started_ok_return(1) [OF ok1, of True] ok1
      by (auto simp: walk_ok_def)
    with R show ?thesis by blast
  next
    case None
    show ?thesis
    proof (cases "?roots = []")
      case True
      let ?s0 = "s1\<lparr>ctxDone := True, dfsWait := dfsWait s1 - 1\<rparr>"
      have R: "Resolve rng ca g = Some (Some NoRoots, ?s0)"
        using Resolve_unfold [OF eq] None True by simp
      have "?R = {}" using sr True by simp
      then have "resolve_post g ca (Some NoRoots) ?s0"
        unfolding resolve_post_def
        using v1 started_ok_return(1) [OF ok1, of True] ok1 empty [OF True]
        by (auto simp: walk_ok_def)
      with R show ?thesis by blast
    next
      case False
      let ?s0 = "s1\<lparr>watcher := True, dfsWait := dfsWait s1 - 1\<rparr>"
      have R: "Resolve rng ca g = Some (None, ?s0)"
        using Resolve_unfold [OF eq] None False by simp
      have ne: "?R \<noteq> {}" using sr False by (metis set_empty)
      have "resolve_post g ca None ?s0"
        unfolding resolve_post_def
        using v1 n1 c1 l1 closed None ne started_ok_return(2) [OF ok1, of True]
        by auto
      with R None show ?thesis by blast
    qed
  qed
qed


subsection \<open>A walk under a signal that is already done\<close>

lemma dfsChildren_done:
  "dfsChildren n rng ca g name cs s = Some (r, s') \<Longrightarrow> ctxDone s \<Longrightarrow>
   set cs \<inter> path s = {} \<Longrightarrow> r = None"
proof (induction cs arbitrary: s)
  case Nil
  then show ?case by simp
next
  case (Cons child rest)
  have "ctxDone (polled ca s)" using Cons.prems(2) by (simp add: ctxDone_polled)
  then show ?case
    using Cons.IH [of s] Cons.IH [of "polled ca s"] Cons.prems
    by (auto simp: dfsChildren_Cons split: if_splits)
qed

lemma dfsResolve_done:
  assumes wf: "wf_graph g" and rng: "\<forall>i. range_ok (rng i)"
    and res: "dfsResolve n rng ca g name s = Some (r, s')"
    and dn: "ctxDone s" and p: "path s = {}" and self: "name \<notin> lookup (treeOrder g) name"
  shows "r = None"
proof (cases n)
  case 0
  with res show ?thesis by simp
next
  case (Suc m)
  let ?cs = "rng (ranges s) (lookup (treeOrder g) name)"
  have cs: "set ?cs = lookup (treeOrder g) name"
    using rng wf by (simp add: range_ok_set wf_finite_treeOrder)
  from res Suc obtain r5 s5 where
    ch: "dfsChildren m rng ca g name ?cs (entered g s name) = Some (r5, s5)"
    by (cases "dfsChildren m rng ca g name ?cs (entered g s name)")
      (auto simp: dfsResolve_Suc)
  have "r5 = None"
    using dfsChildren_done [OF ch] dn p cs self by simp
  with res Suc ch show ?thesis by (simp add: dfsResolve_Suc)
qed

lemma resolveRoots_done:
  assumes wf: "wf_graph g" and rng: "\<forall>i. range_ok (rng i)"
  shows "resolveRoots n rng ca g roots s = Some (r, s') \<Longrightarrow> walk_ok g s \<Longrightarrow> path s = {} \<Longrightarrow>
        distinct roots \<Longrightarrow> (\<forall>x\<in>set roots. lookup (graphOrder g) x = {}) \<Longrightarrow>
        set roots \<inter> visited s = {} \<Longrightarrow> ctxDone s \<Longrightarrow> r = None"
proof (induction roots arbitrary: s)
  case Nil
  then show ?case by simp
next
  case (Cons root rest)
  from Cons.prems(1) obtain r1 s1 where rec: "dfsResolve n rng ca g root s = Some (r1, s1)"
    by (cases "dfsResolve n rng ca g root s") auto
  have "(root, root) \<notin> edges g"
    using root_not_child [OF wf] Cons.prems(5) by simp
  then have self: "root \<notin> lookup (treeOrder g) root" by (simp add: edges_def)
  have r1: "r1 = None"
    using dfsResolve_done [OF wf rng rec Cons.prems(7,3) self] .
  with rec Cons.prems(1) have rest: "resolveRoots n rng ca g rest s1 = Some (r, s')" by simp
  have "resolveRoots n rng ca g [root] s = Some (None, s1)"
    using rec r1 by simp
  then have post: "roots_post g ca [root] s None s1"
    using resolveRoots_walk [OF wf rng _ Cons.prems(2,3)] Cons.prems by simp
  then have ok1: "walk_ok g s1" and p1: "path s1 = {}" and d1: "ctxDone s1"
    and v1: "visited s1 \<subseteq> visited s \<union> (edges g)\<^sup>* `` {root}"
    using Cons.prems(7) by (simp_all add: roots_post_def)
  have disj: "set rest \<inter> visited s1 = {}"
  proof -
    { fix x assume x: "x \<in> set rest" and "x \<in> visited s1"
      with v1 Cons.prems(6) have "(root, x) \<in> (edges g)\<^sup>*" by auto
      moreover have "lookup (graphOrder g) x = {}" using x Cons.prems(5) by simp
      ultimately have "root = x" using root_reached_only_self [OF wf] by blast
      with x Cons.prems(4) have False by simp }
    then show ?thesis by blast
  qed
  show ?case
    using Cons.IH [OF rest ok1 p1 _ _ disj d1] Cons.prems(4,5) by simp
qed

lemma Resolve_done_no_cycle_error:
  assumes wf: "wf_graph g" and rng: "\<forall>i. range_ok (rng i)"
    and res: "Resolve rng (Some 0) g = Some (r, s0)"
  shows "r \<noteq> Some CycleDetected"
proof -
  let ?roots = "collectRoots (rng 0) g"
  have ok0: "range_ok (rng 0)" using rng by simp
  have d: "distinct ?roots" using wf ok0 by (rule distinct_collectRoots)
  have sr: "set ?roots = {name \<in> dom (actions g). lookup (graphOrder g) name = {}}"
    using wf ok0 by (rule set_collectRoots)
  obtain r1 s1 where eq: "resolveRoots (card (dom (actions g))) rng (Some 0) g ?roots
        (newSearch (Some 0)) = Some (r1, s1)"
    using resolveRoots_newSearch [OF wf rng] by blast
  have "r1 = None"
    using resolveRoots_done [OF wf rng eq walk_ok_newSearch _ d] sr
    by (simp add: newSearch_def)
  then show ?thesis
    using Resolve_unfold [OF eq] res by (auto split: if_splits)
qed

subsection \<open>Cycles and roots\<close>

lemma finite_edges: "wf_graph g \<Longrightarrow> finite (edges g)"
proof -
  assume wf: "wf_graph g"
  have "edges g \<subseteq> dom (actions g) \<times> dom (actions g)"
    using wf_edge_registered [OF wf] by (auto simp: edges_def)
  then show ?thesis
    using wf_finite_actions [OF wf] by (meson finite_SigmaI finite_subset)
qed

lemma acyclic_reaches_root:
  assumes wf: "wf_graph g" and ac: "acyclic (edges g)"
  shows "name \<in> dom (actions g) \<Longrightarrow> \<exists>root. is_root g root \<and> (root, name) \<in> (edges g)\<^sup>*"
proof -
  have w: "wf (edges g)"
    using finite_edges [OF wf] ac by (rule finite_acyclic_wf)
  show "name \<in> dom (actions g) \<Longrightarrow> \<exists>root. is_root g root \<and> (root, name) \<in> (edges g)\<^sup>*"
    using w
  proof (induction name rule: wf_induct_rule)
    case (less n)
    show ?case
    proof (cases "lookup (graphOrder g) n = {}")
      case True
      with less.prems have "is_root g n" by (simp add: is_root_def)
      then show ?thesis by blast
    next
      case False
      then obtain d where d: "d \<in> lookup (graphOrder g) n" by blast
      then have e: "(d, n) \<in> edges g"
        using wf_transposed [OF wf] by (simp add: edges_def)
      have "d \<in> dom (actions g)"
        using d wf_graphOrder_subset [OF wf] by blast
      with less.IH [OF e] obtain root where "is_root g root" "(root, d) \<in> (edges g)\<^sup>*"
        by blast
      with e show ?thesis by (meson rtrancl_into_rtrancl)
    qed
  qed
qed

lemma reach_registered:
  assumes wf: "wf_graph g"
  shows "(a, b) \<in> (edges g)\<^sup>* \<Longrightarrow> a \<in> dom (actions g) \<Longrightarrow> b \<in> dom (actions g)"
proof (induction rule: rtrancl_induct)
  case base
  then show ?case by simp
next
  case (step y z)
  then show ?case using wf_edge_registered [OF wf] by (auto simp: edges_def)
qed

lemma Resolve_cycle_iff:
  assumes wf: "wf_graph g" and rng: "\<forall>i. range_ok (rng i)"
    and res: "Resolve rng None g = Some (r, s0)"
  shows "r = Some CycleDetected \<longleftrightarrow>
     (\<exists>root x. is_root g root \<and> (root, x) \<in> (edges g)\<^sup>* \<and> (x, x) \<in> (edges g)\<^sup>+)"
proof -
  from Resolve_post [OF wf rng, of None] res have post: "resolve_post g None r s0" by auto
  show ?thesis
  proof
    assume "r = Some CycleDetected"
    then show "\<exists>root x. is_root g root \<and> (root, x) \<in> (edges g)\<^sup>* \<and> (x, x) \<in> (edges g)\<^sup>+"
      using post by (simp add: resolve_post_def)
  next
    assume "\<exists>root x. is_root g root \<and> (root, x) \<in> (edges g)\<^sup>* \<and> (x, x) \<in> (edges g)\<^sup>+"
    then obtain root x where root: "is_root g root" and rx: "(root, x) \<in> (edges g)\<^sup>*"
      and xx: "(x, x) \<in> (edges g)\<^sup>+" by blast
    have nn: "r \<noteq> Some NoRoots" using post root by (auto simp: resolve_post_def)
    have "r \<noteq> None"
    proof
      assume "r = None"
      with post have v: "visited s0 = (edges g)\<^sup>* `` {name. is_root g name}"
        and a: "\<forall>x\<in>visited s0. (x, x) \<notin> (edges g)\<^sup>+"
        by (simp_all add: resolve_post_def)
      from v root rx have "x \<in> visited s0" by blast
      with a xx show False by blast
    qed
    with nn post show "r = Some CycleDetected"
      by (auto simp: resolve_post_def)
  qed
qed

lemma Resolve_acyclic:
  assumes wf: "wf_graph g" and rng: "\<forall>i. range_ok (rng i)"
    and ac: "acyclic (edges g)" and ne: "dom (actions g) \<noteq> {}"
    and res: "Resolve rng None g = Some (r, s0)"
  shows "r = None \<and> visited s0 = dom (actions g) \<and> \<not> ctxDone s0"
proof -
  from Resolve_post [OF wf rng, of None] res have post: "resolve_post g None r s0" by auto
  have nocyc: "\<And>x. (x, x) \<notin> (edges g)\<^sup>+" using ac by (simp add: acyclic_def)
  from ne obtain n where "n \<in> dom (actions g)" by blast
  then obtain root where "is_root g root"
    using acyclic_reaches_root [OF wf ac] by blast
  then have "r \<noteq> Some NoRoots" using post by (auto simp: resolve_post_def)
  moreover have "r \<noteq> Some CycleDetected" using post nocyc by (auto simp: resolve_post_def)
  ultimately have r: "r = None" using post by (cases r) (auto simp: resolve_post_def)
  with post have v: "visited s0 = (edges g)\<^sup>* `` {name. is_root g name}" and c: "\<not> ctxDone s0"
    by (simp_all add: resolve_post_def)
  have "visited s0 \<subseteq> dom (actions g)"
  proof
    fix x assume "x \<in> visited s0"
    with v obtain root where "is_root g root" "(root, x) \<in> (edges g)\<^sup>*" by blast
    then show "x \<in> dom (actions g)"
      using reach_registered [OF wf] by (simp add: is_root_def)
  qed
  moreover have "dom (actions g) \<subseteq> visited s0"
    using v acyclic_reaches_root [OF wf ac] by blast
  ultimately show ?thesis using r c by blast
qed


definition skipping :: "search \<Rightarrow> bool" where
  "skipping s \<longleftrightarrow>
     ctxDone s \<and>
     (\<forall>i<length (tasks s). tpc (tasks s ! i) \<notin> {AtLatch, CheckSecond, Starting, Running}) \<and>
     (\<forall>name. Start name \<notin> set (log s) \<and> Finish name \<notin> set (log s))"

lemma skipping_step_task:
  "step_task g s i p = Some s' \<Longrightarrow> tpc (tasks s ! i) = p \<Longrightarrow> i < length (tasks s) \<Longrightarrow>
   skipping s \<Longrightarrow> skipping s'"
  by (cases p)
    (auto simp: skipping_def setpc_def recorder_Enter_def recorder_Start_def
      recorder_Finish_def recorder_Exit_def visitComplete_Done_def nth_list_update
      split: if_splits)

lemma skipping_fire: "fire g l s = Some s' \<Longrightarrow> skipping s \<Longrightarrow> skipping s'"
proof (cases l)
  case (Step i)
  assume "fire g l s = Some s'" "skipping s"
  with Step show ?thesis
    using skipping_step_task [of g s i "tpc (tasks s ! i)" s']
    by (auto split: if_splits)
next
  case (Notify i parent)
  assume "fire g l s = Some s'" "skipping s"
  with Notify show ?thesis
    by (auto simp: skipping_def setpc_def visitComplete_parent_def nth_list_update
        split: if_splits pc.splits option.splits)
qed (auto simp: skipping_def split: if_splits)

lemma skipping_exec: "exec g ls s = Some s' \<Longrightarrow> skipping s \<Longrightarrow> skipping s'"
proof (induction ls arbitrary: s)
  case Nil
  then show ?case by simp
next
  case (Cons l ls)
  then show ?case
    by (cases "fire g l s") (auto dest: skipping_fire)
qed

lemma started_skipping: "started_ok g s \<Longrightarrow> ctxDone s \<Longrightarrow> skipping s"
  by (simp add: started_ok_def fresh_ok_def skipping_def)


lemma idle_fire:
  "fire g l s = Some s' \<Longrightarrow> tasks s = [] \<and> log s = [] \<and> ctxDone s \<Longrightarrow>
   tasks s' = [] \<and> log s' = [] \<and> ctxDone s'"
  by (cases l) (auto split: if_splits)

lemma idle_exec:
  "exec g ls s = Some s' \<Longrightarrow> tasks s = [] \<and> log s = [] \<and> ctxDone s \<Longrightarrow>
   tasks s' = [] \<and> log s' = [] \<and> ctxDone s'"
proof (induction ls arbitrary: s)
  case Nil
  then show ?case by simp
next
  case (Cons l ls)
  from Cons.prems(1) obtain s1 where f: "fire g l s = Some s1" and e: "exec g ls s1 = Some s'"
    by (cases "fire g l s") auto
  from idle_fire [OF f Cons.prems(2)] Cons.IH [OF e] show ?case by blast
qed

text \<open>Graphs of the package's tests, as concrete inputs.\<close>

definition deepCycle :: "nat Graph" where
  "deepCycle = build [CallAddAction ''a'' 1, CallAddAction ''b'' 2, CallAddAction ''c'' 3,
     CallLinkDependency ''a'' ''b'', CallLinkDependency ''b'' ''c'',
     CallLinkDependency ''b'' ''a'']"

definition noRoots :: "nat Graph" where
  "noRoots = build [CallAddAction ''a'' 1, CallAddAction ''b'' 2,
     CallLinkDependency ''a'' ''b'', CallLinkDependency ''b'' ''a'']"

definition anyOrder :: "nat \<Rightarrow> range_order" where
  "anyOrder i = sorted_list_of_set"

lemma range_ok_anyOrder: "\<forall>i. range_ok (anyOrder i)"
  by (simp add: anyOrder_def range_ok_sorted_list_of_set)

lemma singleton_list:
  assumes "set xs = {x}" and "distinct xs"
  shows "xs = [x]"
proof (cases xs)
  case Nil
  then show ?thesis using assms by simp
next
  case (Cons y ys)
  with assms have "y = x" and "set ys \<subseteq> {x}" and "x \<notin> set ys" by auto
  then have "ys = []" by (cases ys) auto
  with Cons \<open>y = x\<close> show ?thesis by simp
qed

lemma deepCycle_simps:
  "dom (actions deepCycle) = {''a'', ''b'', ''c''}"
  "lookup (treeOrder deepCycle) n =
     (if n = ''a'' then {''b''} else if n = ''b'' then {''a''}
      else if n = ''c'' then {''b''} else {})"
  "lookup (graphOrder deepCycle) n =
     (if n = ''a'' then {''b''} else if n = ''b'' then {''a'', ''c''} else {})"
  by (auto simp: deepCycle_def build_def AddAction_def LinkDependency_def NewGraph_def
      lookup_multimap_Add split: if_splits)

lemma noRoots_simps:
  "dom (actions noRoots) = {''a'', ''b''}"
  "lookup (treeOrder noRoots) n =
     (if n = ''a'' then {''b''} else if n = ''b'' then {''a''} else {})"
  "lookup (graphOrder noRoots) n =
     (if n = ''a'' then {''b''} else if n = ''b'' then {''a''} else {})"
  by (auto simp: noRoots_def build_def AddAction_def LinkDependency_def NewGraph_def
      lookup_multimap_Add split: if_splits)

lemma chain_simps:
  "dom (actions (build chain_calls)) = {''a'', ''b''}"
  "lookup (treeOrder (build chain_calls)) n = (if n = ''b'' then {''a''} else {})"
  "lookup (graphOrder (build chain_calls)) n = (if n = ''a'' then {''b''} else {})"
  by (auto simp: chain_calls_def pair_calls_def build_def AddAction_def LinkDependency_def
      NewGraph_def lookup_multimap_Add split: if_splits)

lemma collectRoots_deepCycle: "range_ok order \<Longrightarrow> collectRoots order deepCycle = [''c'']"
proof -
  assume ok: "range_ok order"
  have wf: "wf_graph deepCycle" by (simp add: deepCycle_def wf_build)
  have "set (collectRoots order deepCycle) = {''c''}"
    unfolding set_collectRoots [OF wf ok]
    by (auto simp: deepCycle_simps split: if_splits)
  moreover have "distinct (collectRoots order deepCycle)"
    using wf ok by (rule distinct_collectRoots)
  ultimately show ?thesis by (rule singleton_list)
qed

lemma collectRoots_chain: "range_ok order \<Longrightarrow> collectRoots order (build chain_calls) = [''b'']"
proof -
  assume ok: "range_ok order"
  have wf: "wf_graph (build chain_calls)" by (rule wf_build)
  have "set (collectRoots order (build chain_calls)) = {''b''}"
    unfolding set_collectRoots [OF wf ok]
    by (auto simp: chain_simps split: if_splits)
  moreover have "distinct (collectRoots order (build chain_calls))"
    using wf ok by (rule distinct_collectRoots)
  ultimately show ?thesis by (rule singleton_list)
qed

lemmas walk_eval =
  Resolve_def ResolveN_def eval_nat_numeral dfsResolve_Suc dfsChildren_Cons entered_def
  polled_def newSearch_def anyOrder_def range_ok_sorted_list_of_set len_def

lemmas run_eval =
  setpc_def recorder_Enter_def recorder_Start_def recorder_Finish_def recorder_Exit_def
  recordTime_def visitComplete_Done_def visitComplete_parent_def

text \<open>
  C4. When \<^verbatim>\<open>Resolve\<close> returns the error "cycle detected", some name reachable from a
  root lies on a cycle of prerequisite edges, the derived context is done when
  \<^verbatim>\<open>Resolve\<close> returns, and under every schedule of the goroutines already started no
  action is started: the recorder never sees a Start or a Finish, and no goroutine is
  ever inside its action.
\<close>

theorem cycle_error_runs_no_action:
  assumes "\<forall>i. range_ok (rng i)"
    and "Resolve rng cancelAt (build calls) = Some (Some CycleDetected, s0)"
    and "exec (build calls) schedule s0 = Some s"
  shows "(\<exists>root x. is_root (build calls) root \<and> (root, x) \<in> (edges (build calls))\<^sup>* \<and>
            (x, x) \<in> (edges (build calls))\<^sup>+) \<and>
         ctxDone s0 \<and> ctxDone s \<and>
         (\<forall>name. Start name \<notin> set (log s) \<and> Finish name \<notin> set (log s)) \<and>
         (\<forall>i<length (tasks s). tpc (tasks s ! i) \<noteq> Starting \<and> tpc (tasks s ! i) \<noteq> Running)"
proof -
  have post: "resolve_post (build calls) cancelAt (Some CycleDetected) s0"
    using Resolve_post [OF wf_build assms(1), of cancelAt calls] assms(2) by auto
  then have "started_ok (build calls) s0" and "ctxDone s0"
    by (simp_all add: resolve_post_def)
  then have "skipping s0" by (rule started_skipping)
  then have "skipping s"
    using assms(3) skipping_exec by blast
  then show ?thesis
    using post by (simp add: resolve_post_def skipping_def)
qed

theorem cycle_error_runs_no_action_witness:
  "\<exists>s0 s. Resolve anyOrder None deepCycle = Some (Some CycleDetected, s0) \<and>
     exec deepCycle [Step 2, Step 1, Step 2, Tick, Step 2, Step 2, Notify 2 ''b'', Step 2] s0
       = Some s \<and>
     ctxDone s0 \<and> ctxDone s \<and>
     (\<forall>name. Start name \<notin> set (log s) \<and> Finish name \<notin> set (log s))"
proof -
  have "\<exists>s0. Resolve anyOrder None deepCycle = Some (Some CycleDetected, s0) \<and>
     exec deepCycle [Step 2, Step 1, Step 2, Tick, Step 2, Step 2, Notify 2 ''b'', Step 2] s0
       \<noteq> None"
    by (simp add: walk_eval run_eval collectRoots_deepCycle deepCycle_simps)
  then obtain s0 s where r: "Resolve anyOrder None deepCycle = Some (Some CycleDetected, s0)"
    and e: "exec deepCycle [Step 2, Step 1, Step 2, Tick, Step 2, Step 2, Notify 2 ''b'', Step 2]
       s0 = Some s"
    by auto
  from cycle_error_runs_no_action [OF range_ok_anyOrder r [unfolded deepCycle_def]
      e [unfolded deepCycle_def]] r e
  show ?thesis by blast
qed

text \<open>
  C5. When every registered name has a dependent (also when nothing is registered),
  \<^verbatim>\<open>Resolve\<close> returns the error "no roots in graph" whatever the caller's signal does;
  it has started no goroutine, its derived context is done when it returns, and
  afterwards no goroutine exists and the recorder sees nothing.
\<close>

theorem no_sink_gives_NoRoots:
  assumes "\<forall>i. range_ok (rng i)"
    and "\<forall>name\<in>dom (actions (build calls)). lookup (graphOrder (build calls)) name \<noteq> {}"
  shows "\<exists>s0. Resolve rng cancelAt (build calls) = Some (Some NoRoots, s0) \<and>
            tasks s0 = [] \<and> ctxDone s0 \<and>
            (\<forall>schedule s. exec (build calls) schedule s0 = Some s \<longrightarrow>
               tasks s = [] \<and> log s = [] \<and> ctxDone s)"
proof -
  obtain r s0 where res: "Resolve rng cancelAt (build calls) = Some (r, s0)"
    and post: "resolve_post (build calls) cancelAt r s0"
    using Resolve_post [OF wf_build assms(1)] by blast
  have "{name. is_root (build calls) name} = {}"
    using assms(2) by (auto simp: is_root_def)
  with post have r: "r = Some NoRoots" by (simp add: resolve_post_def)
  with post have idle: "tasks s0 = [] \<and> log s0 = [] \<and> ctxDone s0"
    by (simp add: resolve_post_def started_ok_def fresh_ok_def)
  then have "\<forall>schedule s. exec (build calls) schedule s0 = Some s \<longrightarrow>
               tasks s = [] \<and> log s = [] \<and> ctxDone s"
    using idle_exec by blast
  with res r idle show ?thesis by blast
qed

theorem no_sink_gives_NoRoots_witness:
  "dom (actions noRoots) = {''a'', ''b''} \<and>
   lookup (graphOrder noRoots) ''a'' \<noteq> {} \<and> lookup (graphOrder noRoots) ''b'' \<noteq> {} \<and>
   (\<exists>s0 s. Resolve anyOrder None noRoots = Some (Some NoRoots, s0) \<and>
      tasks s0 = [] \<and> ctxDone s0 \<and>
      exec noRoots [Tick, Cancel, Tick] s0 = Some s \<and> tasks s = [] \<and> log s = [])"
proof -
  have h: "\<forall>name\<in>dom (actions noRoots). lookup (graphOrder noRoots) name \<noteq> {}"
    by (simp add: noRoots_simps)
  from no_sink_gives_NoRoots [OF range_ok_anyOrder h [unfolded noRoots_def], of None]
  obtain s0 where r: "Resolve anyOrder None noRoots = Some (Some NoRoots, s0)"
    and t: "tasks s0 = []" "ctxDone s0"
    and a: "\<forall>schedule s. exec noRoots schedule s0 = Some s \<longrightarrow>
               tasks s = [] \<and> log s = [] \<and> ctxDone s"
    unfolding noRoots_def by blast
  obtain r' t where "Resolve anyOrder None noRoots = Some (r', t)"
    and "resolve_post noRoots None r' t"
    using Resolve_post [OF wf_build range_ok_anyOrder, of None] unfolding noRoots_def by blast
  with r have "started_ok noRoots s0" by (simp add: resolve_post_def)
  then have "\<not> panicked s0" by (simp add: started_ok_def fresh_ok_def)
  then obtain s where e: "exec noRoots [Tick, Cancel, Tick] s0 = Some s"
    by simp
  with a have "tasks s = [] \<and> log s = []" by blast
  moreover have "dom (actions noRoots) = {''a'', ''b''}"
    and "lookup (graphOrder noRoots) ''a'' \<noteq> {}" and "lookup (graphOrder noRoots) ''b'' \<noteq> {}"
    by (simp_all add: noRoots_simps)
  ultimately show ?thesis using r t e by blast
qed

text \<open>
  C6. When the caller's signal is done before \<^verbatim>\<open>Resolve\<close> is called and some
  registered name has no dependent, \<^verbatim>\<open>Resolve\<close> returns no error, the derived context
  is done when it returns, and under every schedule no action is started.
\<close>

theorem done_signal_runs_no_action:
  assumes "\<forall>i. range_ok (rng i)"
    and "\<exists>name\<in>dom (actions (build calls)). lookup (graphOrder (build calls)) name = {}"
  shows "\<exists>s0. Resolve rng (Some 0) (build calls) = Some (None, s0) \<and> ctxDone s0 \<and>
            (\<forall>schedule s. exec (build calls) schedule s0 = Some s \<longrightarrow>
               ctxDone s \<and>
               (\<forall>name. Start name \<notin> set (log s) \<and> Finish name \<notin> set (log s)))"
proof -
  obtain r s0 where res: "Resolve rng (Some 0) (build calls) = Some (r, s0)"
    and post: "resolve_post (build calls) (Some 0) r s0"
    using Resolve_post [OF wf_build assms(1)] by blast
  have "{name. is_root (build calls) name} \<noteq> {}"
    using assms(2) by (auto simp: is_root_def)
  with post have "r \<noteq> Some NoRoots" by (simp add: resolve_post_def)
  moreover have "r \<noteq> Some CycleDetected"
    using Resolve_done_no_cycle_error [OF wf_build assms(1) res] .
  ultimately have r: "r = None"
    using post by (cases r) (auto simp: resolve_post_def)
  from post have d: "ctxDone s0" and "started_ok (build calls) s0"
    by (simp_all add: resolve_post_def)
  then have "skipping s0" by (simp add: started_skipping)
  then have "\<forall>schedule s. exec (build calls) schedule s0 = Some s \<longrightarrow>
               ctxDone s \<and>
               (\<forall>name. Start name \<notin> set (log s) \<and> Finish name \<notin> set (log s))"
    using skipping_exec by (meson skipping_def)
  with res r d show ?thesis by blast
qed

theorem done_signal_runs_no_action_witness:
  "(\<exists>name\<in>dom (actions (build chain_calls)).
      lookup (graphOrder (build chain_calls)) name = {}) \<and>
   (\<exists>s0 s. Resolve anyOrder (Some 0) (build chain_calls) = Some (None, s0) \<and> ctxDone s0 \<and>
      exec (build chain_calls) [Step 0, Step 0, Step 0, Step 0, Step 0, Watch] s0 = Some s \<and>
      log s = [Enter ''b'', Exit ''b''] \<and>
      (\<forall>name. Start name \<notin> set (log s) \<and> Finish name \<notin> set (log s)))"
proof -
  have h: "\<exists>name\<in>dom (actions (build chain_calls)).
      lookup (graphOrder (build chain_calls)) name = {}"
    by (simp add: chain_simps)
  from done_signal_runs_no_action [OF range_ok_anyOrder h]
  obtain s0 where r: "Resolve anyOrder (Some 0) (build chain_calls) = Some (None, s0)"
    and d: "ctxDone s0"
    and a: "\<forall>schedule s. exec (build chain_calls) schedule s0 = Some s \<longrightarrow>
               ctxDone s \<and>
               (\<forall>name. Start name \<notin> set (log s) \<and> Finish name \<notin> set (log s))"
    by blast
  have "\<exists>t. Resolve anyOrder (Some 0) (build chain_calls) = Some (None, t) \<and>
     (\<exists>s. exec (build chain_calls) [Step 0, Step 0, Step 0, Step 0, Step 0, Watch] t = Some s \<and>
        log s = [Enter ''b'', Exit ''b''])"
    by (simp add: walk_eval run_eval collectRoots_chain chain_simps)
  with r obtain s where
    e: "exec (build chain_calls) [Step 0, Step 0, Step 0, Step 0, Step 0, Watch] s0 = Some s"
    and l: "log s = [Enter ''b'', Exit ''b'']"
    by auto
  with a have "\<forall>name. Start name \<notin> set (log s) \<and> Finish name \<notin> set (log s)" by blast
  with h r d e l show ?thesis by blast
qed


text \<open>
  C3, as stated, fails when the caller's signal is done before the call: the walk
  does not descend below the roots (\<^verbatim>\<open>dfsResolve\<close> calls itself only when
  \<^verbatim>\<open>searchContextDone\<close> says no), so the cycle between \<open>a\<close> and \<open>b\<close> below the root
  \<open>c\<close> is not reported.
\<close>

theorem cycle_iff_counterexample:
  "map_option fst (Resolve anyOrder (Some 0) deepCycle) = Some None \<and>
   is_root deepCycle ''c'' \<and> (''c'', ''b'') \<in> (edges deepCycle)\<^sup>* \<and>
   (''b'', ''b'') \<in> (edges deepCycle)\<^sup>+"
proof -
  have 1: "map_option fst (Resolve anyOrder (Some 0) deepCycle) = Some None"
    by (simp add: walk_eval collectRoots_deepCycle deepCycle_simps)
  have 2: "is_root deepCycle ''c''"
    by (simp add: is_root_def deepCycle_simps)
  have cb: "(''c'', ''b'') \<in> edges deepCycle" and ba: "(''b'', ''a'') \<in> edges deepCycle"
    and ab: "(''a'', ''b'') \<in> edges deepCycle"
    by (simp_all add: edges_def deepCycle_simps)
  have 3: "(''c'', ''b'') \<in> (edges deepCycle)\<^sup>*" using cb by blast
  have 4: "(''b'', ''b'') \<in> (edges deepCycle)\<^sup>+"
    using ba ab by (meson trancl.intros)
  from 1 2 3 4 show ?thesis by blast
qed

text \<open>
  C3, amended. \<^verbatim>\<open>Resolve\<close> always returns. Whatever the caller's signal does, it
  returns "cycle detected" only when some name is reachable from itself along
  prerequisite edges (so a diamond is never reported), and it starts at most one
  goroutine per name. When the signal stays live during the walk, it returns
  "cycle detected" whenever some name that a root reaches lies on a cycle, and when
  it returns no error it has started a goroutine for every name that a root reaches.
\<close>

theorem cycle_detection_on_live_walk:
  assumes "\<forall>i. range_ok (rng i)"
  shows "\<exists>r s0. Resolve rng cancelAt (build calls) = Some (r, s0) \<and>
     distinct (map tname (tasks s0)) \<and>
     (r = Some CycleDetected \<longrightarrow> (\<exists>x. (x, x) \<in> (edges (build calls))\<^sup>+)) \<and>
     (cancelAt = None \<longrightarrow>
        ((\<exists>root x. is_root (build calls) root \<and> (root, x) \<in> (edges (build calls))\<^sup>* \<and>
            (x, x) \<in> (edges (build calls))\<^sup>+) \<longrightarrow> r = Some CycleDetected) \<and>
        (r = None \<longrightarrow>
           (edges (build calls))\<^sup>* `` {name. is_root (build calls) name}
             \<subseteq> set (map tname (tasks s0))))"
proof -
  obtain r s0 where res: "Resolve rng cancelAt (build calls) = Some (r, s0)"
    and post: "resolve_post (build calls) cancelAt r s0"
    using Resolve_post [OF wf_build assms] by blast
  have st: "struct_ok s0" using post by (simp add: resolve_post_def started_ok_def)
  then have d: "distinct (map tname (tasks s0))"
    and n: "set (map tname (tasks s0)) = visited s0"
    by (simp_all add: struct_ok_def)
  have "r = Some CycleDetected \<longrightarrow>
        (\<exists>root x. is_root (build calls) root \<and> (root, x) \<in> (edges (build calls))\<^sup>* \<and>
           (x, x) \<in> (edges (build calls))\<^sup>+)"
    using post by (simp add: resolve_post_def)
  then have sound: "r = Some CycleDetected \<longrightarrow> (\<exists>x. (x, x) \<in> (edges (build calls))\<^sup>+)"
    by blast
  have live: "cancelAt = None \<longrightarrow>
        ((\<exists>root x. is_root (build calls) root \<and> (root, x) \<in> (edges (build calls))\<^sup>* \<and>
            (x, x) \<in> (edges (build calls))\<^sup>+) \<longrightarrow> r = Some CycleDetected) \<and>
        (r = None \<longrightarrow>
           (edges (build calls))\<^sup>* `` {name. is_root (build calls) name}
             \<subseteq> set (map tname (tasks s0)))"
  proof
    assume ca: "cancelAt = None"
    have "(\<exists>root x. is_root (build calls) root \<and> (root, x) \<in> (edges (build calls))\<^sup>* \<and>
            (x, x) \<in> (edges (build calls))\<^sup>+) \<longrightarrow> r = Some CycleDetected"
      using Resolve_cycle_iff [OF wf_build assms] res ca by blast
    moreover have "r = None \<longrightarrow>
        (edges (build calls))\<^sup>* `` {name. is_root (build calls) name}
          \<subseteq> set (map tname (tasks s0))"
      using post ca n by (simp add: resolve_post_def)
    ultimately show "((\<exists>root x. is_root (build calls) root \<and>
            (root, x) \<in> (edges (build calls))\<^sup>* \<and>
            (x, x) \<in> (edges (build calls))\<^sup>+) \<longrightarrow> r = Some CycleDetected) \<and>
        (r = None \<longrightarrow>
           (edges (build calls))\<^sup>* `` {name. is_root (build calls) name}
             \<subseteq> set (map tname (tasks s0)))"
      by blast
  qed
  from res d sound live show ?thesis by blast
qed

theorem cycle_detection_on_live_walk_witness:
  "is_root deepCycle ''c'' \<and> (''c'', ''b'') \<in> (edges deepCycle)\<^sup>* \<and>
   (''b'', ''b'') \<in> (edges deepCycle)\<^sup>+ \<and>
   (\<exists>s0. Resolve anyOrder None deepCycle = Some (Some CycleDetected, s0) \<and>
      distinct (map tname (tasks s0)))"
proof -
  have root: "is_root deepCycle ''c''"
    by (simp add: is_root_def deepCycle_simps)
  have cb: "(''c'', ''b'') \<in> edges deepCycle" and ba: "(''b'', ''a'') \<in> edges deepCycle"
    and ab: "(''a'', ''b'') \<in> edges deepCycle"
    by (simp_all add: edges_def deepCycle_simps)
  have reach: "(''c'', ''b'') \<in> (edges deepCycle)\<^sup>*" using cb by blast
  have cyc: "(''b'', ''b'') \<in> (edges deepCycle)\<^sup>+"
    using ba ab by (meson trancl.intros)
  from cycle_detection_on_live_walk [OF range_ok_anyOrder, of None
      "[CallAddAction ''a'' 1, CallAddAction ''b'' 2, CallAddAction ''c'' 3,
        CallLinkDependency ''a'' ''b'', CallLinkDependency ''b'' ''c'',
        CallLinkDependency ''b'' ''a'']"]
  obtain r s0 where res: "Resolve anyOrder None deepCycle = Some (r, s0)"
    and d: "distinct (map tname (tasks s0))"
    and complete: "(\<exists>root x. is_root deepCycle root \<and> (root, x) \<in> (edges deepCycle)\<^sup>* \<and>
              (x, x) \<in> (edges deepCycle)\<^sup>+) \<longrightarrow> r = Some CycleDetected"
    unfolding deepCycle_def by blast
  from complete root reach cyc have "r = Some CycleDetected" by blast
  with res d have "\<exists>s0. Resolve anyOrder None deepCycle = Some (Some CycleDetected, s0) \<and>
      distinct (map tname (tasks s0))" by blast
  with root reach cyc show ?thesis by blast
qed

subsection \<open>A cycle that no root reaches\<close>

text \<open>
  The walk starts at the roots only. Here \<open>b\<close> and \<open>c\<close> depend on each other beside the
  root \<open>a\<close>: \<^verbatim>\<open>Resolve\<close> returns no error and starts the goroutine of \<open>a\<close> alone, so the
  actions of \<open>b\<close> and \<open>c\<close> never run, although the derived context is documented to be
  done "when the Actions are all executed or an error occurs".
\<close>

definition island :: "nat Graph" where
  "island = build [CallAddAction ''a'' 1, CallAddAction ''b'' 2, CallAddAction ''c'' 3,
     CallLinkDependency ''b'' ''c'', CallLinkDependency ''c'' ''b'']"

lemma island_simps:
  "dom (actions island) = {''a'', ''b'', ''c''}"
  "lookup (treeOrder island) n =
     (if n = ''b'' then {''c''} else if n = ''c'' then {''b''} else {})"
  "lookup (graphOrder island) n =
     (if n = ''b'' then {''c''} else if n = ''c'' then {''b''} else {})"
  by (auto simp: island_def build_def AddAction_def LinkDependency_def NewGraph_def
      lookup_multimap_Add split: if_splits)

lemma collectRoots_island: "range_ok order \<Longrightarrow> collectRoots order island = [''a'']"
proof -
  assume ok: "range_ok order"
  have wf: "wf_graph island" by (simp add: island_def wf_build)
  have "set (collectRoots order island) = {''a''}"
    unfolding set_collectRoots [OF wf ok]
    by (auto simp: island_simps split: if_splits)
  moreover have "distinct (collectRoots order island)"
    using wf ok by (rule distinct_collectRoots)
  ultimately show ?thesis by (rule singleton_list)
qed

lemma island_unwalked:
  "(''b'', ''b'') \<in> (edges island)\<^sup>+ \<and>
   (\<exists>s0. Resolve anyOrder None island = Some (None, s0) \<and> map tname (tasks s0) = [''a''])"
proof -
  have "(''b'', ''c'') \<in> edges island" and "(''c'', ''b'') \<in> edges island"
    by (simp_all add: edges_def island_simps)
  then have "(''b'', ''b'') \<in> (edges island)\<^sup>+"
    by (meson trancl.intros)
  moreover have "\<exists>s0. Resolve anyOrder None island = Some (None, s0) \<and>
      map tname (tasks s0) = [''a'']"
    by (simp add: walk_eval collectRoots_island island_simps visit_def
        createWaitGroupForDependents_def)
  ultimately show ?thesis by blast
qed


section \<open>Invariants of the goroutines\<close>

fun phase :: "pc \<Rightarrow> nat" where
  "phase Spawned = 0"
| "phase AtBarrier = 1"
| "phase CheckFirst = 2"
| "phase AtLatch = 3"
| "phase CheckSecond = 4"
| "phase Starting = 5"
| "phase Running = 6"
| "phase Completing = 7"
| "phase (Notifying ps) = 8"
| "phase Finished = 9"

text \<open>
  \<open>sent p d\<close>: a goroutine standing at \<open>p\<close> has executed the iteration of the loop of
  \<^verbatim>\<open>visitComplete\<close> for the dependent \<open>d\<close> (or has no such iteration to execute).
\<close>

fun sent :: "pc \<Rightarrow> string \<Rightarrow> bool" where
  "sent (Notifying ps) d = (d \<notin> ps)"
| "sent Finished d = True"
| "sent _ d = False"

definition notified :: "search \<Rightarrow> string \<Rightarrow> string \<Rightarrow> bool" where
  "notified s p d \<longleftrightarrow>
     (\<exists>j<length (tasks s). tname (tasks s ! j) = p \<and> sent (tpc (tasks s ! j)) d)"

definition pending :: "'a Graph \<Rightarrow> search \<Rightarrow> string \<Rightarrow> string set" where
  "pending g s d = {p \<in> lookup (treeOrder g) d. \<not> notified s p d}"

text \<open>
  A step of goroutine \<open>i\<close> changes at most its own position; \<open>moved s i p s'\<close> says that
  the goroutines of \<open>s'\<close> are those of \<open>s\<close> with goroutine \<open>i\<close> now at \<open>p\<close>.
\<close>

definition moved :: "search \<Rightarrow> nat \<Rightarrow> pc \<Rightarrow> search \<Rightarrow> bool" where
  "moved s i p s' \<longleftrightarrow>
     i < length (tasks s) \<and> tasks s' = (tasks s)[i := (tasks s ! i)\<lparr>tpc := p\<rparr>] \<and>
     waits s' = waits s \<and> visited s' = visited s \<and> dfsWait s' = dfsWait s \<and>
     length (groups s') = length (groups s)"

definition stayed :: "search \<Rightarrow> search \<Rightarrow> bool" where
  "stayed s s' \<longleftrightarrow>
     tasks s' = tasks s \<and> waits s' = waits s \<and> visited s' = visited s \<and>
     dfsWait s' = dfsWait s \<and> groups s' = groups s \<and> wg s' = wg s \<and> log s' = log s \<and>
     enter s' = enter s \<and> start s' = start s \<and> finish s' = finish s \<and> exit s' = exit s"

lemma fire_cases [consumes 1, case_names Enter Barrier Check1 Latch Check2 Start Finish
    DonePanic Done NotifyNone NotifyPanic NotifySome Exit Watch Cancel Tick]:
  assumes "fire g l s = Some s'"
  obtains
    (Enter) i where "l = Step i" "\<not> panicked s" "tpc (tasks s ! i) = Spawned"
      "moved s i AtBarrier s'"
      "s' = recorder_Enter (tname (tasks s ! i)) (setpc s i AtBarrier)"
  | (Barrier) i where "l = Step i" "\<not> panicked s" "tpc (tasks s ! i) = AtBarrier"
      "dfsWait s = 0" "moved s i CheckFirst s'" "s' = setpc s i CheckFirst"
  | (Check1) i where "l = Step i" "\<not> panicked s" "tpc (tasks s ! i) = CheckFirst"
      "moved s i (if ctxDone s then Completing else AtLatch) s'"
      "s' = setpc s i (if ctxDone s then Completing else AtLatch)"
  | (Latch) i where "l = Step i" "\<not> panicked s" "tpc (tasks s ! i) = AtLatch"
      "groups s ! twg (tasks s ! i) = 0" "moved s i CheckSecond s'" "s' = setpc s i CheckSecond"
  | (Check2) i where "l = Step i" "\<not> panicked s" "tpc (tasks s ! i) = CheckSecond"
      "moved s i (if ctxDone s then Completing else Starting) s'"
      "s' = setpc s i (if ctxDone s then Completing else Starting)"
  | (Start) i where "l = Step i" "\<not> panicked s" "tpc (tasks s ! i) = Starting"
      "moved s i Running s'"
      "s' = recorder_Start (tname (tasks s ! i)) (setpc s i Running)"
  | (Finish) i where "l = Step i" "\<not> panicked s" "tpc (tasks s ! i) = Running"
      "moved s i Completing s'"
      "s' = recorder_Finish (tname (tasks s ! i)) (setpc s i Completing)"
  | (DonePanic) i where "l = Step i" "\<not> panicked s" "i < length (tasks s)"
      "tpc (tasks s ! i) = Completing" "wg s < 1" "s' = s\<lparr>panicked := True\<rparr>"
  | (Done) i where "l = Step i" "\<not> panicked s" "tpc (tasks s ! i) = Completing" "1 \<le> wg s"
      "moved s i (Notifying (lookup (graphOrder g) (tname (tasks s ! i)))) s'"
      "s' = (setpc s i (Notifying (lookup (graphOrder g) (tname (tasks s ! i)))))
              \<lparr>wg := wg s - 1\<rparr>"
  | (NotifyNone) i parent ps where "l = Notify i parent" "\<not> panicked s"
      "tpc (tasks s ! i) = Notifying ps" "parent \<in> ps" "waits s parent = None"
      "moved s i (Notifying (ps - {parent})) s'"
      "s' = setpc s i (Notifying (ps - {parent}))"
  | (NotifyPanic) i parent ps j where "l = Notify i parent" "\<not> panicked s"
      "i < length (tasks s)"
      "tpc (tasks s ! i) = Notifying ps" "parent \<in> ps" "waits s parent = Some j"
      "groups s ! j < 1" "s' = s\<lparr>panicked := True\<rparr>"
  | (NotifySome) i parent ps j where "l = Notify i parent" "\<not> panicked s"
      "tpc (tasks s ! i) = Notifying ps" "parent \<in> ps" "waits s parent = Some j"
      "1 \<le> groups s ! j" "moved s i (Notifying (ps - {parent})) s'"
      "s' = (setpc s i (Notifying (ps - {parent})))
              \<lparr>groups := (groups s)[j := groups s ! j - 1]\<rparr>"
  | (Exit) i where "l = Step i" "\<not> panicked s" "tpc (tasks s ! i) = Notifying {}"
      "moved s i Finished s'"
      "s' = recorder_Exit (tname (tasks s ! i)) (setpc s i Finished)"
  | (Watch) "l = Watch" "\<not> panicked s" "watcher s" "wg s = 0"
      "s' = s\<lparr>ctxDone := True, watcher := False\<rparr>"
  | (Cancel) "l = Cancel" "\<not> panicked s" "s' = s\<lparr>ctxDone := True\<rparr>"
  | (Tick) "l = Tick" "\<not> panicked s" "s' = s\<lparr>now := now s + 1\<rparr>"
proof (cases l)
  case (Step i)
  with assms have np: "\<not> panicked s" and i: "i < length (tasks s)"
    and st: "step_task g s i (tpc (tasks s ! i)) = Some s'"
    by (auto split: if_splits)
  show ?thesis
  proof (cases "tpc (tasks s ! i)")
    case Spawned
    with st have "s' = recorder_Enter (tname (tasks s ! i)) (setpc s i AtBarrier)" by simp
    moreover from this i have "moved s i AtBarrier s'"
      by (simp add: moved_def recorder_Enter_def setpc_def)
    ultimately show ?thesis using Step np Spawned Enter by blast
  next
    case AtBarrier
    with st have "dfsWait s = 0" and "s' = setpc s i CheckFirst" by (auto split: if_splits)
    moreover from this i have "moved s i CheckFirst s'" by (simp add: moved_def setpc_def)
    ultimately show ?thesis using Step np AtBarrier Barrier by blast
  next
    case CheckFirst
    with st have "s' = setpc s i (if ctxDone s then Completing else AtLatch)" by simp
    moreover from this i have "moved s i (if ctxDone s then Completing else AtLatch) s'"
      by (simp add: moved_def setpc_def)
    ultimately show ?thesis using Step np CheckFirst Check1 by blast
  next
    case AtLatch
    with st have "groups s ! twg (tasks s ! i) = 0" and "s' = setpc s i CheckSecond"
      by (auto split: if_splits)
    moreover from this i have "moved s i CheckSecond s'" by (simp add: moved_def setpc_def)
    ultimately show ?thesis using Step np AtLatch Latch by blast
  next
    case CheckSecond
    with st have "s' = setpc s i (if ctxDone s then Completing else Starting)" by simp
    moreover from this i have "moved s i (if ctxDone s then Completing else Starting) s'"
      by (simp add: moved_def setpc_def)
    ultimately show ?thesis using Step np CheckSecond Check2 by blast
  next
    case Starting
    with st have "s' = recorder_Start (tname (tasks s ! i)) (setpc s i Running)" by simp
    moreover from this i have "moved s i Running s'"
      by (simp add: moved_def recorder_Start_def setpc_def)
    ultimately show ?thesis using Step np Starting Start by blast
  next
    case Running
    with st have "s' = recorder_Finish (tname (tasks s ! i)) (setpc s i Completing)" by simp
    moreover from this i have "moved s i Completing s'"
      by (simp add: moved_def recorder_Finish_def setpc_def)
    ultimately show ?thesis using Step np Running Finish by blast
  next
    case Completing
    show ?thesis
    proof (cases "wg s < 1")
      case True
      with st Completing have "s' = s\<lparr>panicked := True\<rparr>"
        by (simp add: visitComplete_Done_def)
      then show ?thesis using Step np i Completing True DonePanic by blast
    next
      case False
      with st Completing have
        "s' = (setpc s i (Notifying (lookup (graphOrder g) (tname (tasks s ! i)))))
              \<lparr>wg := wg s - 1\<rparr>"
        by (simp add: visitComplete_Done_def)
      moreover from this i
      have "moved s i (Notifying (lookup (graphOrder g) (tname (tasks s ! i)))) s'"
        by (simp add: moved_def setpc_def)
      ultimately show ?thesis using Step np Completing False Done by force
    qed
  next
    case (Notifying ps)
    with st have "ps = {}" and "s' = recorder_Exit (tname (tasks s ! i)) (setpc s i Finished)"
      by (auto split: if_splits)
    moreover from this i have "moved s i Finished s'"
      by (simp add: moved_def recorder_Exit_def setpc_def)
    ultimately show ?thesis using Step np Notifying Exit by blast
  next
    case Finished
    with st show ?thesis by simp
  qed
next
  case (Notify i parent)
  with assms obtain ps where np: "\<not> panicked s" and i: "i < length (tasks s)"
    and pc: "tpc (tasks s ! i) = Notifying ps" and mem: "parent \<in> ps"
    and s': "s' = visitComplete_parent s i ps parent"
    by (auto split: if_splits pc.splits)
  show ?thesis
  proof (cases "waits s parent")
    case None
    with s' have "s' = setpc s i (Notifying (ps - {parent}))"
      by (simp add: visitComplete_parent_def)
    moreover from this i have "moved s i (Notifying (ps - {parent})) s'"
      by (simp add: moved_def setpc_def)
    ultimately show ?thesis using Notify np pc mem None NotifyNone by blast
  next
    case (Some j)
    show ?thesis
    proof (cases "groups s ! j < 1")
      case True
      with s' Some have "s' = s\<lparr>panicked := True\<rparr>"
        by (simp add: visitComplete_parent_def)
      then show ?thesis using Notify np i pc mem Some True NotifyPanic by blast
    next
      case False
      with s' Some have "s' = (setpc s i (Notifying (ps - {parent})))
              \<lparr>groups := (groups s)[j := groups s ! j - 1]\<rparr>"
        by (simp add: visitComplete_parent_def)
      moreover from this i have "moved s i (Notifying (ps - {parent})) s'"
        by (simp add: moved_def setpc_def)
      ultimately show ?thesis using Notify np pc mem Some False NotifySome by force
    qed
  qed
next
  case Watch
  with assms show ?thesis using that(14) by (auto split: if_splits)
next
  case Cancel
  with assms show ?thesis using that(15) by (auto split: if_splits)
next
  case Tick
  with assms show ?thesis using that(16) by (auto split: if_splits)
qed


lemma moved_length: "moved s i p s' \<Longrightarrow> length (tasks s') = length (tasks s)"
  unfolding moved_def by (metis length_list_update)

lemma moved_nth:
  "moved s i p s' \<Longrightarrow>
   tasks s' ! j = (if j = i then (tasks s ! i)\<lparr>tpc := p\<rparr> else tasks s ! j)"
  by (simp add: moved_def)

lemma moved_tname: "moved s i p s' \<Longrightarrow> tname (tasks s' ! j) = tname (tasks s ! j)"
  by (simp add: moved_nth)

lemma moved_twg: "moved s i p s' \<Longrightarrow> twg (tasks s' ! j) = twg (tasks s ! j)"
  by (simp add: moved_nth)

lemma moved_tpc: "moved s i p s' \<Longrightarrow> tpc (tasks s' ! j) = (if j = i then p else tpc (tasks s ! j))"
  by (simp add: moved_nth)

lemma moved_map_tname: "moved s i p s' \<Longrightarrow> map tname (tasks s') = map tname (tasks s)"
  by (rule nth_equalityI) (simp_all add: moved_length moved_tname)

lemma struct_ok_moved:
  assumes "struct_ok s" and "moved s i p s'"
  shows "struct_ok s'"
proof -
  have l: "length (tasks s') = length (tasks s)" using assms(2) by (rule moved_length)
  have n: "\<And>j. tname (tasks s' ! j) = tname (tasks s ! j)" using assms(2) by (rule moved_tname)
  have t: "\<And>j. twg (tasks s' ! j) = twg (tasks s ! j)" using assms(2) by (rule moved_twg)
  have m: "map tname (tasks s') = map tname (tasks s)" using assms(2) by (rule moved_map_tname)
  have w: "waits s' = waits s" and v: "visited s' = visited s"
    and g: "length (groups s') = length (groups s)"
    using assms(2) by (simp_all add: moved_def)
  show ?thesis
    using assms(1) unfolding struct_ok_def l n t m w v g .
qed

lemma fire_coarse [consumes 1, case_names Moved Stayed]:
  assumes "fire g l s = Some s'"
  obtains (Moved) i p where "moved s i p s'"
  | (Stayed) "tasks s' = tasks s" "waits s' = waits s" "visited s' = visited s"
      "groups s' = groups s" "log s' = log s" "dfsWait s' = dfsWait s"
  using assms
proof (cases rule: fire_cases)
  case (DonePanic i)
  then show ?thesis using Stayed by simp
next
  case (NotifyPanic i parent ps j)
  then show ?thesis using Stayed by simp
next
  case Watch
  then show ?thesis using Stayed by simp
next
  case Cancel
  then show ?thesis using Stayed by simp
next
  case Tick
  then show ?thesis using Stayed by simp
qed (use Moved in blast)+

lemma struct_ok_fire:
  assumes "fire g l s = Some s'" and "struct_ok s"
  shows "struct_ok s'"
  using assms(1)
proof (cases rule: fire_coarse)
  case (Moved i p)
  with assms(2) show ?thesis by (rule struct_ok_moved)
next
  case Stayed
  with assms(2) show ?thesis by (simp add: struct_ok_def)
qed

lemma struct_ok_unique:
  assumes "struct_ok s" and "i < length (tasks s)" and "j < length (tasks s)"
    and "tname (tasks s ! i) = tname (tasks s ! j)"
  shows "i = j"
proof -
  have "distinct (map tname (tasks s))" using assms(1) by (simp add: struct_ok_def)
  moreover have "map tname (tasks s) ! i = map tname (tasks s) ! j"
    using assms(2-4) by simp
  ultimately show ?thesis
    using assms(2,3) by (auto simp: distinct_conv_nth)
qed

lemma notified_moved:
  assumes "struct_ok s" and "moved s i p' s'"
  shows "notified s' p d \<longleftrightarrow>
     (if p = tname (tasks s ! i) then sent p' d else notified s p d)"
proof -
  have i: "i < length (tasks s)" using assms(2) by (simp add: moved_def)
  show ?thesis
  proof (cases "p = tname (tasks s ! i)")
    case True
    have "notified s' p d \<longleftrightarrow> sent p' d"
    proof
      assume "notified s' p d"
      then obtain j where j: "j < length (tasks s)" "tname (tasks s ! j) = p"
        "sent (tpc (tasks s' ! j)) d"
        using assms(2) by (auto simp: notified_def moved_length moved_tname)
      with True i have "j = i" using struct_ok_unique [OF assms(1)] by simp
      with j(3) show "sent p' d" using assms(2) by (simp add: moved_tpc)
    next
      assume "sent p' d"
      then show "notified s' p d"
        unfolding notified_def using i True assms(2)
        by (auto simp: moved_length moved_tname moved_tpc intro!: exI [of _ i])
    qed
    with True show ?thesis by simp
  next
    case False
    have "notified s' p d \<longleftrightarrow> notified s p d"
      unfolding notified_def using False assms(2)
      by (auto simp: moved_length moved_tname moved_tpc)
    with False show ?thesis by simp
  qed
qed

lemma notified_stayed: "tasks s' = tasks s \<Longrightarrow> notified s' p d = notified s p d"
  by (simp add: notified_def)

lemma pending_stayed: "tasks s' = tasks s \<Longrightarrow> pending g s' d = pending g s d"
  unfolding pending_def notified_def by simp

lemma notified_unique:
  "struct_ok s \<Longrightarrow> i < length (tasks s) \<Longrightarrow>
   notified s (tname (tasks s ! i)) d \<longleftrightarrow> sent (tpc (tasks s ! i)) d"
  unfolding notified_def using struct_ok_unique by blast

lemma finite_pending: "wf_graph g \<Longrightarrow> finite (pending g s d)"
  by (simp add: pending_def wf_finite_treeOrder)

text \<open>
  A step that does not change what goroutine \<open>i\<close> has sent to the dependents of its
  name leaves every set of pending prerequisites as it was.
\<close>

lemma pending_moved_same:
  assumes "struct_ok s" and "moved s i p' s'"
    and "\<And>d. tname (tasks s ! i) \<in> lookup (treeOrder g) d \<Longrightarrow>
           sent p' d = sent (tpc (tasks s ! i)) d"
  shows "pending g s' d = pending g s d"
proof -
  have i: "i < length (tasks s)" using assms(2) by (simp add: moved_def)
  { fix p assume p: "p \<in> lookup (treeOrder g) d"
    have "notified s' p d \<longleftrightarrow> notified s p d"
    proof (cases "p = tname (tasks s ! i)")
      case True
      then show ?thesis
        using notified_moved [OF assms(1,2), of p d] notified_unique [OF assms(1) i, of d]
          assms(3) [of d] p by simp
    next
      case False
      then show ?thesis using notified_moved [OF assms(1,2), of p d] by simp
    qed }
  then show ?thesis by (auto simp: pending_def)
qed

lemma pending_moved_notify:
  assumes wf: "wf_graph g" and st: "struct_ok s" and mv: "moved s i (Notifying (ps - {parent})) s'"
    and pc: "tpc (tasks s ! i) = Notifying ps" and mem: "parent \<in> ps"
    and sub: "ps \<subseteq> lookup (graphOrder g) (tname (tasks s ! i))"
  shows "pending g s' d =
           (if d = parent then pending g s d - {tname (tasks s ! i)} else pending g s d)"
    and "tname (tasks s ! i) \<in> pending g s parent"
proof -
  let ?n = "tname (tasks s ! i)"
  have i: "i < length (tasks s)" using mv by (simp add: moved_def)
  have not: "\<And>p d. notified s' p d \<longleftrightarrow>
     (if p = ?n then d \<notin> ps \<or> d = parent else notified s p d)"
    using notified_moved [OF st mv] by auto
  have old: "\<And>d. notified s ?n d \<longleftrightarrow> d \<notin> ps"
    using notified_unique [OF st i] pc by simp
  have edge: "?n \<in> lookup (treeOrder g) parent"
    using mem sub wf_transposed [OF wf] by blast
  show "?n \<in> pending g s parent"
    using edge old mem by (simp add: pending_def)
  show "pending g s' d = (if d = parent then pending g s d - {?n} else pending g s d)"
  proof (cases "d = parent")
    case True
    then show ?thesis using not old by (auto simp: pending_def)
  next
    case False
    then show ?thesis using not old by (auto simp: pending_def)
  qed
qed


definition notif_ok :: "'a Graph \<Rightarrow> search \<Rightarrow> bool" where
  "notif_ok g s \<longleftrightarrow>
     (\<forall>i<length (tasks s). \<forall>ps. tpc (tasks s ! i) = Notifying ps \<longrightarrow>
        ps \<subseteq> lookup (graphOrder g) (tname (tasks s ! i)))"

definition groups_ok :: "'a Graph \<Rightarrow> search \<Rightarrow> bool" where
  "groups_ok g s \<longleftrightarrow>
     (\<forall>i<length (tasks s). groups s ! i = int (card (pending g s (tname (tasks s ! i)))))"

definition waiting :: "search \<Rightarrow> nat set" where
  "waiting s = {i. i < length (tasks s) \<and> phase (tpc (tasks s ! i)) \<le> 7}"

definition wg_ok :: "search \<Rightarrow> bool" where
  "wg_ok s \<longleftrightarrow> wg s = int (card (waiting s))"

lemma notif_ok_moved:
  assumes "notif_ok g s" and "moved s i p s'"
    and "\<And>ps. p = Notifying ps \<Longrightarrow> ps \<subseteq> lookup (graphOrder g) (tname (tasks s ! i))"
  shows "notif_ok g s'"
  unfolding notif_ok_def
proof (intro allI impI)
  fix j ps assume j: "j < length (tasks s')" and pc: "tpc (tasks s' ! j) = Notifying ps"
  have j': "j < length (tasks s)" using j moved_length [OF assms(2)] by simp
  show "ps \<subseteq> lookup (graphOrder g) (tname (tasks s' ! j))"
  proof (cases "j = i")
    case True
    with pc have "p = Notifying ps" using moved_tpc [OF assms(2), of j] by simp
    then show ?thesis using assms(3) True moved_tname [OF assms(2), of j] by simp
  next
    case False
    with pc have "tpc (tasks s ! j) = Notifying ps" using moved_tpc [OF assms(2), of j] by simp
    then show ?thesis
      using assms(1) j' moved_tname [OF assms(2), of j] by (simp add: notif_ok_def)
  qed
qed

lemma notif_ok_stayed: "notif_ok g s \<Longrightarrow> tasks s' = tasks s \<Longrightarrow> notif_ok g s'"
  by (simp add: notif_ok_def)

lemma notif_ok_fire:
  assumes "fire g l s = Some s'" and "notif_ok g s"
  shows "notif_ok g s'"
  using assms(1)
proof (cases rule: fire_cases)
  case (Enter i)
  show ?thesis by (rule notif_ok_moved [OF assms(2) Enter(4)]) simp
next
  case (Barrier i)
  show ?thesis by (rule notif_ok_moved [OF assms(2) Barrier(5)]) simp
next
  case (Check1 i)
  show ?thesis by (rule notif_ok_moved [OF assms(2) Check1(4)]) (simp split: if_splits)
next
  case (Latch i)
  show ?thesis by (rule notif_ok_moved [OF assms(2) Latch(5)]) simp
next
  case (Check2 i)
  show ?thesis by (rule notif_ok_moved [OF assms(2) Check2(4)]) (simp split: if_splits)
next
  case (Start i)
  show ?thesis by (rule notif_ok_moved [OF assms(2) Start(4)]) simp
next
  case (Finish i)
  show ?thesis by (rule notif_ok_moved [OF assms(2) Finish(4)]) simp
next
  case (DonePanic i)
  then show ?thesis using assms(2) by (simp add: notif_ok_def)
next
  case (Done i)
  show ?thesis by (rule notif_ok_moved [OF assms(2) Done(5)]) simp
next
  case (NotifyNone i parent ps)
  have "i < length (tasks s)" using NotifyNone(6) by (simp add: moved_def)
  then have "ps \<subseteq> lookup (graphOrder g) (tname (tasks s ! i))"
    using assms(2) NotifyNone(3) by (simp add: notif_ok_def)
  then show ?thesis
    by (intro notif_ok_moved [OF assms(2) NotifyNone(6)]) auto
next
  case (NotifyPanic i parent ps j)
  then show ?thesis using assms(2) by (simp add: notif_ok_def)
next
  case (NotifySome i parent ps j)
  have "i < length (tasks s)" using NotifySome(7) by (simp add: moved_def)
  then have "ps \<subseteq> lookup (graphOrder g) (tname (tasks s ! i))"
    using assms(2) NotifySome(3) by (simp add: notif_ok_def)
  then show ?thesis
    by (intro notif_ok_moved [OF assms(2) NotifySome(7)]) auto
next
  case (Exit i)
  show ?thesis by (rule notif_ok_moved [OF assms(2) Exit(4)]) simp
next
  case Watch
  then show ?thesis using assms(2) by (simp add: notif_ok_def)
next
  case Cancel
  then show ?thesis using assms(2) by (simp add: notif_ok_def)
next
  case Tick
  then show ?thesis using assms(2) by (simp add: notif_ok_def)
qed


lemma groups_ok_same:
  assumes "groups_ok g s" and "struct_ok s" and "moved s i p' s'" and "groups s' = groups s"
    and "\<And>d. tname (tasks s ! i) \<in> lookup (treeOrder g) d \<Longrightarrow>
           sent p' d = sent (tpc (tasks s ! i)) d"
  shows "groups_ok g s'"
  unfolding groups_ok_def
proof (intro allI impI)
  fix j assume "j < length (tasks s')"
  then have j: "j < length (tasks s)" using moved_length [OF assms(3)] by simp
  have "pending g s' (tname (tasks s ! j)) = pending g s (tname (tasks s ! j))"
    using assms(2,3,5) by (rule pending_moved_same)
  then show "groups s' ! j = int (card (pending g s' (tname (tasks s' ! j))))"
    using assms(1,4) j moved_tname [OF assms(3), of j] by (simp add: groups_ok_def)
qed

lemma groups_ok_stayed:
  "groups_ok g s \<Longrightarrow> tasks s' = tasks s \<Longrightarrow> groups s' = groups s \<Longrightarrow> groups_ok g s'"
  unfolding groups_ok_def pending_def notified_def by simp

lemma groups_ok_fire:
  assumes fire: "fire g l s = Some s'" and wf: "wf_graph g" and st: "struct_ok s"
    and nf: "notif_ok g s" and gr: "groups_ok g s"
  shows "groups_ok g s'"
  using fire
proof (cases rule: fire_cases)
  case (Enter i)
  show ?thesis
    by (rule groups_ok_same [OF gr st Enter(4)])
      (simp_all add: Enter recorder_Enter_def setpc_def)
next
  case (Barrier i)
  show ?thesis
    by (rule groups_ok_same [OF gr st Barrier(5)]) (simp_all add: Barrier setpc_def)
next
  case (Check1 i)
  show ?thesis
    by (rule groups_ok_same [OF gr st Check1(4)]) (simp_all add: Check1 setpc_def)
next
  case (Latch i)
  show ?thesis
    by (rule groups_ok_same [OF gr st Latch(5)]) (simp_all add: Latch setpc_def)
next
  case (Check2 i)
  show ?thesis
    by (rule groups_ok_same [OF gr st Check2(4)]) (simp_all add: Check2 setpc_def)
next
  case (Start i)
  show ?thesis
    by (rule groups_ok_same [OF gr st Start(4)])
      (simp_all add: Start recorder_Start_def setpc_def)
next
  case (Finish i)
  show ?thesis
    by (rule groups_ok_same [OF gr st Finish(4)])
      (simp_all add: Finish recorder_Finish_def setpc_def)
next
  case (DonePanic i)
  then show ?thesis using gr by (simp add: groups_ok_stayed)
next
  case (Done i)
  show ?thesis
  proof (rule groups_ok_same [OF gr st Done(5)])
    show "groups s' = groups s" by (simp add: Done setpc_def)
  next
    fix d assume "tname (tasks s ! i) \<in> lookup (treeOrder g) d"
    then have "d \<in> lookup (graphOrder g) (tname (tasks s ! i))"
      using wf_transposed [OF wf] by simp
    then show "sent (Notifying (lookup (graphOrder g) (tname (tasks s ! i)))) d
        = sent (tpc (tasks s ! i)) d"
      by (simp add: Done)
  qed
next
  case (NotifyNone i parent ps)
  have i: "i < length (tasks s)" using NotifyNone(6) by (simp add: moved_def)
  have sub: "ps \<subseteq> lookup (graphOrder g) (tname (tasks s ! i))"
    using nf i NotifyNone(3) by (simp add: notif_ok_def)
  have g: "groups s' = groups s" by (simp add: NotifyNone setpc_def)
  show ?thesis
    unfolding groups_ok_def
  proof (intro allI impI)
    fix j assume "j < length (tasks s')"
    then have j: "j < length (tasks s)" using moved_length [OF NotifyNone(6)] by simp
    have "waits s (tname (tasks s ! j)) = Some j"
      using st j by (simp add: struct_ok_def)
    with NotifyNone(5) have ne: "tname (tasks s ! j) \<noteq> parent" by auto
    have "pending g s' (tname (tasks s ! j)) = pending g s (tname (tasks s ! j))"
      using pending_moved_notify(1) [OF wf st NotifyNone(6) NotifyNone(3,4) sub] ne by simp
    then show "groups s' ! j = int (card (pending g s' (tname (tasks s' ! j))))"
      using gr g j moved_tname [OF NotifyNone(6), of j] by (simp add: groups_ok_def)
  qed
next
  case (NotifyPanic i parent ps j)
  then show ?thesis using gr by (simp add: groups_ok_stayed)
next
  case (NotifySome i parent ps j)
  have i: "i < length (tasks s)" using NotifySome(7) by (simp add: moved_def)
  have sub: "ps \<subseteq> lookup (graphOrder g) (tname (tasks s ! i))"
    using nf i NotifySome(3) by (simp add: notif_ok_def)
  have j: "j < length (tasks s)" and nj: "tname (tasks s ! j) = parent"
    using st NotifySome(5) by (simp_all add: struct_ok_def)
  have lg: "length (groups s) = length (tasks s)" using st by (simp add: struct_ok_def)
  have g: "groups s' = (groups s)[j := groups s ! j - 1]"
    by (simp add: NotifySome setpc_def)
  have pend: "\<And>d. pending g s' d =
      (if d = parent then pending g s d - {tname (tasks s ! i)} else pending g s d)"
    and mem: "tname (tasks s ! i) \<in> pending g s parent"
    using pending_moved_notify [OF wf st NotifySome(7) NotifySome(3,4) sub] by simp_all
  show ?thesis
    unfolding groups_ok_def
  proof (intro allI impI)
    fix k assume "k < length (tasks s')"
    then have k: "k < length (tasks s)" using moved_length [OF NotifySome(7)] by simp
    have old: "groups s ! k = int (card (pending g s (tname (tasks s ! k))))"
      using gr k by (simp add: groups_ok_def)
    show "groups s' ! k = int (card (pending g s' (tname (tasks s' ! k))))"
    proof (cases "k = j")
      case True
      have "card (pending g s parent - {tname (tasks s ! i)}) = card (pending g s parent) - 1"
        using mem finite_pending [OF wf] by simp
      moreover have "1 \<le> card (pending g s parent)"
        using mem finite_pending [OF wf, of s parent]
        by (metis One_nat_def Suc_leI card_gt_0_iff empty_iff)
      ultimately show ?thesis
        using True g old nj j lg pend moved_tname [OF NotifySome(7), of k]
        by (simp add: of_nat_diff)
    next
      case False
      then have "tname (tasks s ! k) \<noteq> parent"
        using struct_ok_unique [OF st k j] nj by auto
      then show ?thesis
        using False g old pend moved_tname [OF NotifySome(7), of k] by simp
    qed
  qed
next
  case (Exit i)
  show ?thesis
    by (rule groups_ok_same [OF gr st Exit(4)])
      (simp_all add: Exit recorder_Exit_def setpc_def)
next
  case Watch
  then show ?thesis using gr by (simp add: groups_ok_stayed)
next
  case Cancel
  then show ?thesis using gr by (simp add: groups_ok_stayed)
next
  case Tick
  then show ?thesis using gr by (simp add: groups_ok_stayed)
qed


lemma finite_waiting: "finite (waiting s)"
  by (simp add: waiting_def)

lemma waiting_moved:
  assumes "moved s i p' s'"
  shows "waiting s' = (if phase p' \<le> 7 then insert i (waiting s) else waiting s - {i})"
proof -
  have i: "i < length (tasks s)" using assms by (simp add: moved_def)
  have "\<And>j. j \<in> waiting s' \<longleftrightarrow>
      j < length (tasks s) \<and> phase (if j = i then p' else tpc (tasks s ! j)) \<le> 7"
    using moved_length [OF assms] moved_tpc [OF assms] by (simp add: waiting_def)
  then show ?thesis using i by (auto simp: waiting_def split: if_splits)
qed

lemma wg_ok_same:
  assumes "wg_ok s" and "moved s i p' s'" and "wg s' = wg s"
    and "phase p' \<le> 7 \<longleftrightarrow> phase (tpc (tasks s ! i)) \<le> 7"
  shows "wg_ok s'"
proof -
  have i: "i < length (tasks s)" using assms(2) by (simp add: moved_def)
  have "waiting s' = waiting s"
    using waiting_moved [OF assms(2)] assms(4) i by (auto simp: waiting_def)
  then show ?thesis using assms(1,3) by (simp add: wg_ok_def)
qed

lemma wg_ok_stayed: "wg_ok s \<Longrightarrow> tasks s' = tasks s \<Longrightarrow> wg s' = wg s \<Longrightarrow> wg_ok s'"
  by (simp add: wg_ok_def waiting_def)

lemma wg_ok_fire:
  assumes fire: "fire g l s = Some s'" and wg: "wg_ok s"
  shows "wg_ok s'"
  using fire
proof (cases rule: fire_cases)
  case (Enter i)
  show ?thesis
    by (rule wg_ok_same [OF wg Enter(4)]) (simp_all add: Enter recorder_Enter_def setpc_def)
next
  case (Barrier i)
  show ?thesis
    by (rule wg_ok_same [OF wg Barrier(5)]) (simp_all add: Barrier setpc_def)
next
  case (Check1 i)
  show ?thesis
    by (rule wg_ok_same [OF wg Check1(4)]) (simp_all add: Check1 setpc_def)
next
  case (Latch i)
  show ?thesis
    by (rule wg_ok_same [OF wg Latch(5)]) (simp_all add: Latch setpc_def)
next
  case (Check2 i)
  show ?thesis
    by (rule wg_ok_same [OF wg Check2(4)]) (simp_all add: Check2 setpc_def)
next
  case (Start i)
  show ?thesis
    by (rule wg_ok_same [OF wg Start(4)]) (simp_all add: Start recorder_Start_def setpc_def)
next
  case (Finish i)
  show ?thesis
    by (rule wg_ok_same [OF wg Finish(4)]) (simp_all add: Finish recorder_Finish_def setpc_def)
next
  case (DonePanic i)
  then show ?thesis using wg by (simp add: wg_ok_stayed)
next
  case (Done i)
  have i: "i < length (tasks s)" using Done(5) by (simp add: moved_def)
  have mem: "i \<in> waiting s" using i Done(3) by (simp add: waiting_def)
  have "waiting s' = waiting s - {i}"
    using waiting_moved [OF Done(5)] by simp
  then have "card (waiting s') = card (waiting s) - 1"
    using mem finite_waiting by simp
  moreover have "1 \<le> card (waiting s)"
    using mem finite_waiting [of s] by (metis One_nat_def Suc_leI card_gt_0_iff empty_iff)
  moreover have "wg s' = wg s - 1" by (simp add: Done setpc_def)
  ultimately show ?thesis using wg by (simp add: wg_ok_def of_nat_diff)
next
  case (NotifyNone i parent ps)
  show ?thesis
    by (rule wg_ok_same [OF wg NotifyNone(6)]) (simp_all add: NotifyNone setpc_def)
next
  case (NotifyPanic i parent ps j)
  then show ?thesis using wg by (simp add: wg_ok_stayed)
next
  case (NotifySome i parent ps j)
  show ?thesis
    by (rule wg_ok_same [OF wg NotifySome(7)]) (simp_all add: NotifySome setpc_def)
next
  case (Exit i)
  show ?thesis
    by (rule wg_ok_same [OF wg Exit(4)]) (simp_all add: Exit recorder_Exit_def setpc_def)
next
  case Watch
  then show ?thesis using wg by (simp add: wg_ok_stayed)
next
  case Cancel
  then show ?thesis using wg by (simp add: wg_ok_stayed)
next
  case Tick
  then show ?thesis using wg by (simp add: wg_ok_stayed)
qed

text \<open>No wait group counter ever goes below zero: the program does not panic.\<close>

lemma no_panic_fire:
  assumes fire: "fire g l s = Some s'" and wf: "wf_graph g" and st: "struct_ok s"
    and nf: "notif_ok g s" and gr: "groups_ok g s" and wg: "wg_ok s"
  shows "\<not> panicked s'"
  using fire
proof (cases rule: fire_cases)
  case (DonePanic i)
  have "i \<in> waiting s" using DonePanic(3,4) by (simp add: waiting_def)
  then have "1 \<le> card (waiting s)"
    using finite_waiting [of s] by (metis One_nat_def Suc_leI card_gt_0_iff empty_iff)
  with wg DonePanic(5) show ?thesis by (simp add: wg_ok_def)
next
  case (NotifyPanic i parent ps j)
  have sub: "ps \<subseteq> lookup (graphOrder g) (tname (tasks s ! i))"
    using nf NotifyPanic(3,4) by (simp add: notif_ok_def)
  have j: "j < length (tasks s)" and nj: "tname (tasks s ! j) = parent"
    using st NotifyPanic(6) by (simp_all add: struct_ok_def)
  have edge: "tname (tasks s ! i) \<in> lookup (treeOrder g) parent"
    using NotifyPanic(5) sub wf_transposed [OF wf] by blast
  have "\<not> notified s (tname (tasks s ! i)) parent"
    using notified_unique [OF st NotifyPanic(3)] NotifyPanic(4,5) by simp
  with edge have "tname (tasks s ! i) \<in> pending g s parent"
    by (simp add: pending_def)
  then have "1 \<le> card (pending g s parent)"
    using finite_pending [OF wf, of s parent]
    by (metis One_nat_def Suc_leI card_gt_0_iff empty_iff)
  moreover have "groups s ! j = int (card (pending g s parent))"
    using gr j nj by (simp add: groups_ok_def)
  ultimately show ?thesis using NotifyPanic(7) by simp
qed (simp_all add: setpc_def recorder_Enter_def recorder_Start_def recorder_Finish_def
      recorder_Exit_def)


fun event_name :: "event \<Rightarrow> string" where
  "event_name (Enter n) = n"
| "event_name (Start n) = n"
| "event_name (Finish n) = n"
| "event_name (Exit n) = n"

text \<open>
  What the log holds about the name of a goroutine that stands at a position of
  phase \<open>p\<close>.
\<close>

definition task_log :: "event list \<Rightarrow> string \<Rightarrow> nat \<Rightarrow> bool" where
  "task_log L n p \<longleftrightarrow>
     (Enter n \<in> set L \<longleftrightarrow> 1 \<le> p) \<and>
     (Start n \<in> set L \<longrightarrow> 6 \<le> p) \<and>
     (p = 6 \<longrightarrow> Start n \<in> set L) \<and>
     (Finish n \<in> set L \<longleftrightarrow> Start n \<in> set L \<and> 7 \<le> p) \<and>
     (Exit n \<in> set L \<longleftrightarrow> p = 9)"

definition log_ok :: "search \<Rightarrow> bool" where
  "log_ok s \<longleftrightarrow>
     distinct (log s) \<and>
     (\<forall>i<length (tasks s).
        task_log (log s) (tname (tasks s ! i)) (phase (tpc (tasks s ! i))))"

lemma task_log_other:
  "task_log L n p \<Longrightarrow> \<forall>e\<in>set evs. event_name e \<noteq> n \<Longrightarrow> task_log (L @ evs) n p"
  unfolding task_log_def by (auto dest: bspec)

lemma log_ok_moved:
  assumes "log_ok s" and "struct_ok s" and "moved s i p' s'" and "log s' = log s @ evs"
    and "\<forall>e\<in>set evs. event_name e = tname (tasks s ! i)"
    and "distinct (log s @ evs)"
    and "task_log (log s @ evs) (tname (tasks s ! i)) (phase p')"
  shows "log_ok s'"
  unfolding log_ok_def
proof (intro conjI allI impI)
  show "distinct (log s')" using assms(4,6) by simp
next
  fix j assume "j < length (tasks s')"
  then have j: "j < length (tasks s)" using moved_length [OF assms(3)] by simp
  have i: "i < length (tasks s)" using assms(3) by (simp add: moved_def)
  show "task_log (log s') (tname (tasks s' ! j)) (phase (tpc (tasks s' ! j)))"
  proof (cases "j = i")
    case True
    then show ?thesis
      using assms(4,7) moved_tname [OF assms(3), of j] moved_tpc [OF assms(3), of j] by simp
  next
    case False
    then have "tname (tasks s ! j) \<noteq> tname (tasks s ! i)"
      using struct_ok_unique [OF assms(2) j i] by auto
    then have "\<forall>e\<in>set evs. event_name e \<noteq> tname (tasks s ! j)"
      using assms(5) by auto
    moreover have "task_log (log s) (tname (tasks s ! j)) (phase (tpc (tasks s ! j)))"
      using assms(1) j by (simp add: log_ok_def)
    ultimately have "task_log (log s @ evs) (tname (tasks s ! j)) (phase (tpc (tasks s ! j)))"
      by (rule task_log_other [rotated])
    then show ?thesis
      using False assms(4) moved_tname [OF assms(3), of j] moved_tpc [OF assms(3), of j]
      by simp
  qed
qed

lemma log_ok_stayed: "log_ok s \<Longrightarrow> tasks s' = tasks s \<Longrightarrow> log s' = log s \<Longrightarrow> log_ok s'"
  by (simp add: log_ok_def)

lemma log_ok_task:
  "log_ok s \<Longrightarrow> i < length (tasks s) \<Longrightarrow>
   task_log (log s) (tname (tasks s ! i)) (phase (tpc (tasks s ! i)))"
  by (simp add: log_ok_def)

lemma log_ok_fire:
  assumes fire: "fire g l s = Some s'" and st: "struct_ok s" and lg: "log_ok s"
  shows "log_ok s'"
  using fire
proof (cases rule: fire_cases)
  case (Enter i)
  have i: "i < length (tasks s)" using Enter(4) by (simp add: moved_def)
  have old: "task_log (log s) (tname (tasks s ! i)) 0"
    using log_ok_task [OF lg i] Enter(3) by simp
  have d: "distinct (log s)" using lg by (simp add: log_ok_def)
  show ?thesis
  proof (rule log_ok_moved [OF lg st Enter(4), of "[Enter (tname (tasks s ! i))]"])
    show "log s' = log s @ [Enter (tname (tasks s ! i))]"
      by (simp add: Enter recorder_Enter_def setpc_def)
  qed (use old d in \<open>auto simp: task_log_def\<close>)
next
  case (Barrier i)
  have i: "i < length (tasks s)" using Barrier(5) by (simp add: moved_def)
  have old: "task_log (log s) (tname (tasks s ! i)) 1"
    using log_ok_task [OF lg i] Barrier(3) by simp
  have d: "distinct (log s)" using lg by (simp add: log_ok_def)
  show ?thesis
  proof (rule log_ok_moved [OF lg st Barrier(5), of "[]"])
    show "log s' = log s @ []" by (simp add: Barrier setpc_def)
  qed (use old d in \<open>auto simp: task_log_def\<close>)
next
  case (Check1 i)
  have i: "i < length (tasks s)" using Check1(4) by (simp add: moved_def)
  have old: "task_log (log s) (tname (tasks s ! i)) 2"
    using log_ok_task [OF lg i] Check1(3) by simp
  have d: "distinct (log s)" using lg by (simp add: log_ok_def)
  show ?thesis
  proof (rule log_ok_moved [OF lg st Check1(4), of "[]"])
    show "log s' = log s @ []" by (simp add: Check1 setpc_def)
  qed (use old d in \<open>auto simp: task_log_def\<close>)
next
  case (Latch i)
  have i: "i < length (tasks s)" using Latch(5) by (simp add: moved_def)
  have old: "task_log (log s) (tname (tasks s ! i)) 3"
    using log_ok_task [OF lg i] Latch(3) by simp
  have d: "distinct (log s)" using lg by (simp add: log_ok_def)
  show ?thesis
  proof (rule log_ok_moved [OF lg st Latch(5), of "[]"])
    show "log s' = log s @ []" by (simp add: Latch setpc_def)
  qed (use old d in \<open>auto simp: task_log_def\<close>)
next
  case (Check2 i)
  have i: "i < length (tasks s)" using Check2(4) by (simp add: moved_def)
  have old: "task_log (log s) (tname (tasks s ! i)) 4"
    using log_ok_task [OF lg i] Check2(3) by simp
  have d: "distinct (log s)" using lg by (simp add: log_ok_def)
  show ?thesis
  proof (rule log_ok_moved [OF lg st Check2(4), of "[]"])
    show "log s' = log s @ []" by (simp add: Check2 setpc_def)
  qed (use old d in \<open>auto simp: task_log_def\<close>)
next
  case (Start i)
  have i: "i < length (tasks s)" using Start(4) by (simp add: moved_def)
  have old: "task_log (log s) (tname (tasks s ! i)) 5"
    using log_ok_task [OF lg i] Start(3) by simp
  have d: "distinct (log s)" using lg by (simp add: log_ok_def)
  show ?thesis
  proof (rule log_ok_moved [OF lg st Start(4), of "[Start (tname (tasks s ! i))]"])
    show "log s' = log s @ [Start (tname (tasks s ! i))]"
      by (simp add: Start recorder_Start_def setpc_def)
  qed (use old d in \<open>auto simp: task_log_def\<close>)
next
  case (Finish i)
  have i: "i < length (tasks s)" using Finish(4) by (simp add: moved_def)
  have old: "task_log (log s) (tname (tasks s ! i)) 6"
    using log_ok_task [OF lg i] Finish(3) by simp
  have d: "distinct (log s)" using lg by (simp add: log_ok_def)
  show ?thesis
  proof (rule log_ok_moved [OF lg st Finish(4), of "[Finish (tname (tasks s ! i))]"])
    show "log s' = log s @ [Finish (tname (tasks s ! i))]"
      by (simp add: Finish recorder_Finish_def setpc_def)
  qed (use old d in \<open>auto simp: task_log_def\<close>)
next
  case (DonePanic i)
  then show ?thesis using lg by (simp add: log_ok_stayed)
next
  case (Done i)
  have i: "i < length (tasks s)" using Done(5) by (simp add: moved_def)
  have old: "task_log (log s) (tname (tasks s ! i)) 7"
    using log_ok_task [OF lg i] Done(3) by simp
  have d: "distinct (log s)" using lg by (simp add: log_ok_def)
  show ?thesis
  proof (rule log_ok_moved [OF lg st Done(5), of "[]"])
    show "log s' = log s @ []" by (simp add: Done setpc_def)
  qed (use old d in \<open>auto simp: task_log_def\<close>)
next
  case (NotifyNone i parent ps)
  have i: "i < length (tasks s)" using NotifyNone(6) by (simp add: moved_def)
  have old: "task_log (log s) (tname (tasks s ! i)) 8"
    using log_ok_task [OF lg i] NotifyNone(3) by simp
  have d: "distinct (log s)" using lg by (simp add: log_ok_def)
  show ?thesis
  proof (rule log_ok_moved [OF lg st NotifyNone(6), of "[]"])
    show "log s' = log s @ []" by (simp add: NotifyNone setpc_def)
  qed (use old d in \<open>auto simp: task_log_def\<close>)
next
  case (NotifyPanic i parent ps j)
  then show ?thesis using lg by (simp add: log_ok_stayed)
next
  case (NotifySome i parent ps j)
  have i: "i < length (tasks s)" using NotifySome(7) by (simp add: moved_def)
  have old: "task_log (log s) (tname (tasks s ! i)) 8"
    using log_ok_task [OF lg i] NotifySome(3) by simp
  have d: "distinct (log s)" using lg by (simp add: log_ok_def)
  show ?thesis
  proof (rule log_ok_moved [OF lg st NotifySome(7), of "[]"])
    show "log s' = log s @ []" by (simp add: NotifySome setpc_def)
  qed (use old d in \<open>auto simp: task_log_def\<close>)
next
  case (Exit i)
  have i: "i < length (tasks s)" using Exit(4) by (simp add: moved_def)
  have old: "task_log (log s) (tname (tasks s ! i)) 8"
    using log_ok_task [OF lg i] Exit(3) by simp
  have d: "distinct (log s)" using lg by (simp add: log_ok_def)
  show ?thesis
  proof (rule log_ok_moved [OF lg st Exit(4), of "[Exit (tname (tasks s ! i))]"])
    show "log s' = log s @ [Exit (tname (tasks s ! i))]"
      by (simp add: Exit recorder_Exit_def setpc_def)
  qed (use old d in \<open>auto simp: task_log_def\<close>)
next
  case Watch
  then show ?thesis using lg by (simp add: log_ok_stayed)
next
  case Cancel
  then show ?thesis using lg by (simp add: log_ok_stayed)
next
  case Tick
  then show ?thesis using lg by (simp add: log_ok_stayed)
qed


lemma notified_moved_mono:
  assumes st: "struct_ok s" and mv: "moved s i p' s'"
    and keep: "\<And>d. sent (tpc (tasks s ! i)) d \<Longrightarrow> sent p' d"
    and old: "notified s p d"
  shows "notified s' p d"
proof -
  have i: "i < length (tasks s)" using mv by (simp add: moved_def)
  show ?thesis
  proof (cases "p = tname (tasks s ! i)")
    case True
    with old have "sent (tpc (tasks s ! i)) d" using notified_unique [OF st i] by simp
    then have "sent p' d" by (rule keep)
    with True show ?thesis using notified_moved [OF st mv] by simp
  next
    case False
    with old show ?thesis using notified_moved [OF st mv] by simp
  qed
qed

lemma notified_fire_mono:
  assumes fire: "fire g l s = Some s'" and st: "struct_ok s" and old: "notified s p d"
  shows "notified s' p d"
  using fire
proof (cases rule: fire_cases)
  case (Enter i)
  show ?thesis by (rule notified_moved_mono [OF st Enter(4) _ old]) (simp add: Enter)
next
  case (Barrier i)
  show ?thesis by (rule notified_moved_mono [OF st Barrier(5) _ old]) (simp add: Barrier)
next
  case (Check1 i)
  show ?thesis by (rule notified_moved_mono [OF st Check1(4) _ old]) (simp add: Check1)
next
  case (Latch i)
  show ?thesis by (rule notified_moved_mono [OF st Latch(5) _ old]) (simp add: Latch)
next
  case (Check2 i)
  show ?thesis by (rule notified_moved_mono [OF st Check2(4) _ old]) (simp add: Check2)
next
  case (Start i)
  show ?thesis by (rule notified_moved_mono [OF st Start(4) _ old]) (simp add: Start)
next
  case (Finish i)
  show ?thesis by (rule notified_moved_mono [OF st Finish(4) _ old]) (simp add: Finish)
next
  case (DonePanic i)
  then show ?thesis using old by (simp add: notified_def)
next
  case (Done i)
  show ?thesis by (rule notified_moved_mono [OF st Done(5) _ old]) (simp add: Done)
next
  case (NotifyNone i parent ps)
  show ?thesis
    by (rule notified_moved_mono [OF st NotifyNone(6) _ old]) (simp add: NotifyNone)
next
  case (NotifyPanic i parent ps j)
  then show ?thesis using old by (simp add: notified_def)
next
  case (NotifySome i parent ps j)
  show ?thesis
    by (rule notified_moved_mono [OF st NotifySome(7) _ old]) (simp add: NotifySome)
next
  case (Exit i)
  show ?thesis by (rule notified_moved_mono [OF st Exit(4) _ old]) (simp add: Exit)
next
  case Watch
  then show ?thesis using old by (simp add: notified_def)
next
  case Cancel
  then show ?thesis using old by (simp add: notified_def)
next
  case Tick
  then show ?thesis using old by (simp add: notified_def)
qed

lemma pending_fire_subset:
  "fire g l s = Some s' \<Longrightarrow> struct_ok s \<Longrightarrow> pending g s' d \<subseteq> pending g s d"
proof -
  assume f: "fire g l s = Some s'" and st: "struct_ok s"
  show ?thesis
    unfolding pending_def using notified_fire_mono [OF f st] by blast
qed

text \<open>
  A goroutine that has passed its own wait group and not yet started its action has
  no pending prerequisite.
\<close>

definition pass_ok :: "'a Graph \<Rightarrow> search \<Rightarrow> bool" where
  "pass_ok g s \<longleftrightarrow>
     (\<forall>i<length (tasks s). phase (tpc (tasks s ! i)) \<in> {4, 5} \<longrightarrow>
        pending g s (tname (tasks s ! i)) = {})"

lemma fire_length:
  assumes "fire g l s = Some s'"
  shows "length (tasks s') = length (tasks s)"
  using assms
proof (cases rule: fire_coarse)
  case (Moved i p)
  then show ?thesis by (rule moved_length)
next
  case Stayed
  then show ?thesis by simp
qed

lemma fire_tname:
  assumes "fire g l s = Some s'"
  shows "tname (tasks s' ! j) = tname (tasks s ! j)"
  using assms
proof (cases rule: fire_coarse)
  case (Moved i p)
  then show ?thesis by (rule moved_tname)
next
  case Stayed
  then show ?thesis by simp
qed

lemma pass_ok_fire:
  assumes fire: "fire g l s = Some s'" and wf: "wf_graph g" and st: "struct_ok s"
    and gr: "groups_ok g s" and ps: "pass_ok g s"
  shows "pass_ok g s'"
  unfolding pass_ok_def
proof (intro allI impI)
  fix j assume j': "j < length (tasks s')" and ph: "phase (tpc (tasks s' ! j)) \<in> {4, 5}"
  have j: "j < length (tasks s)" using j' fire_length [OF fire] by simp
  have n: "tname (tasks s' ! j) = tname (tasks s ! j)" using fire by (rule fire_tname)
  have "pending g s (tname (tasks s ! j)) = {}"
    using fire
  proof (cases rule: fire_cases)
    case (Latch i)
    show ?thesis
    proof (cases "j = i")
      case True
      have "twg (tasks s ! i) = i" using st j True by (simp add: struct_ok_def)
      with Latch(4) have "groups s ! i = 0" by simp
      then have "card (pending g s (tname (tasks s ! i))) = 0"
        using gr j True by (simp add: groups_ok_def)
      then show ?thesis using True finite_pending [OF wf] by simp
    next
      case False
      then show ?thesis using ph ps j moved_tpc [OF Latch(5), of j] by (auto simp: pass_ok_def)
    qed
  next
    case (Enter i)
    then show ?thesis using ph ps j moved_tpc [OF Enter(4), of j]
      by (auto simp: pass_ok_def split: if_splits)
  next
    case (Barrier i)
    then show ?thesis using ph ps j moved_tpc [OF Barrier(5), of j]
      by (auto simp: pass_ok_def split: if_splits)
  next
    case (Check1 i)
    then show ?thesis using ph ps j moved_tpc [OF Check1(4), of j]
      by (auto simp: pass_ok_def split: if_splits)
  next
    case (Check2 i)
    then show ?thesis using ph ps j moved_tpc [OF Check2(4), of j]
      by (auto simp: pass_ok_def split: if_splits)
  next
    case (Start i)
    then show ?thesis using ph ps j moved_tpc [OF Start(4), of j]
      by (auto simp: pass_ok_def split: if_splits)
  next
    case (Finish i)
    then show ?thesis using ph ps j moved_tpc [OF Finish(4), of j]
      by (auto simp: pass_ok_def split: if_splits)
  next
    case (Done i)
    then show ?thesis using ph ps j moved_tpc [OF Done(5), of j]
      by (auto simp: pass_ok_def split: if_splits)
  next
    case (NotifyNone i parent ps')
    then show ?thesis using ph ps j moved_tpc [OF NotifyNone(6), of j]
      by (auto simp: pass_ok_def split: if_splits)
  next
    case (NotifySome i parent ps' k)
    then show ?thesis using ph ps j moved_tpc [OF NotifySome(7), of j]
      by (auto simp: pass_ok_def split: if_splits)
  next
    case (Exit i)
    then show ?thesis using ph ps j moved_tpc [OF Exit(4), of j]
      by (auto simp: pass_ok_def split: if_splits)
  next
    case (DonePanic i)
    then show ?thesis using ph ps j by (auto simp: pass_ok_def)
  next
    case (NotifyPanic i parent ps' k)
    then show ?thesis using ph ps j by (auto simp: pass_ok_def)
  next
    case Watch
    then show ?thesis using ph ps j by (auto simp: pass_ok_def)
  next
    case Cancel
    then show ?thesis using ph ps j by (auto simp: pass_ok_def)
  next
    case Tick
    then show ?thesis using ph ps j by (auto simp: pass_ok_def)
  qed
  then show "pending g s' (tname (tasks s' ! j)) = {}"
    using pending_fire_subset [OF fire st, of "tname (tasks s ! j)"] n by auto
qed


lemma fire_log [consumes 1, case_names Same Started Other]:
  assumes "fire g l s = Some s'"
  obtains (Same) "log s' = log s"
  | (Started) i where "i < length (tasks s)" "tpc (tasks s ! i) = Starting"
      "log s' = log s @ [Start (tname (tasks s ! i))]"
  | (Other) e where "log s' = log s @ [e]" "\<forall>n. e \<noteq> Start n"
  using assms
proof (cases rule: fire_cases)
  case (Enter i)
  then have "log s' = log s @ [Enter (tname (tasks s ! i))]"
    by (simp add: recorder_Enter_def setpc_def)
  then show ?thesis using Other by blast
next
  case (Start i)
  then have "log s' = log s @ [Start (tname (tasks s ! i))]"
    by (simp add: recorder_Start_def setpc_def)
  moreover have "i < length (tasks s)" using Start(4) by (simp add: moved_def)
  ultimately show ?thesis using Started Start(3) by blast
next
  case (Finish i)
  then have "log s' = log s @ [Finish (tname (tasks s ! i))]"
    by (simp add: recorder_Finish_def setpc_def)
  then show ?thesis using Other by blast
next
  case (Exit i)
  then have "log s' = log s @ [Exit (tname (tasks s ! i))]"
    by (simp add: recorder_Exit_def setpc_def)
  then show ?thesis using Other by blast
qed (use Same in \<open>simp_all add: setpc_def\<close>)

text \<open>
  The order of the log: when the action of \<open>d\<close> has started, each prerequisite \<open>p\<close> of
  \<open>d\<close> either finished its action before that start, or never started its action and
  never will (its goroutine is already past its action).
\<close>

definition ord_ok :: "'a Graph \<Rightarrow> search \<Rightarrow> bool" where
  "ord_ok g s \<longleftrightarrow>
     (\<forall>d p. Start d \<in> set (log s) \<longrightarrow> p \<in> lookup (treeOrder g) d \<longrightarrow>
        Finish p \<in> set (takeWhile (\<lambda>e. e \<noteq> Start d) (log s)) \<or>
        (Start p \<notin> set (log s) \<and> notified s p d))"

lemma takeWhile_until_last:
  "x \<notin> set xs \<Longrightarrow> takeWhile (\<lambda>e. e \<noteq> x) (xs @ [x]) = xs"
  by (induction xs) auto

lemma sent_phase: "sent p d \<Longrightarrow> 8 \<le> phase p"
  by (cases p) simp_all

lemma ord_ok_fire:
  assumes fire: "fire g l s = Some s'" and st: "struct_ok s" and lg: "log_ok s"
    and ps: "pass_ok g s" and od: "ord_ok g s"
  shows "ord_ok g s'"
  using fire
proof (cases rule: fire_log)
  case Same
  show ?thesis
    unfolding ord_ok_def Same
    using od notified_fire_mono [OF fire st] unfolding ord_ok_def by blast
next
  case (Other e)
  show ?thesis
    unfolding ord_ok_def
  proof (intro allI impI)
    fix d p assume sd: "Start d \<in> set (log s')" and pd: "p \<in> lookup (treeOrder g) d"
    from sd Other have sd0: "Start d \<in> set (log s)" by auto
    have tw: "takeWhile (\<lambda>e. e \<noteq> Start d) (log s') = takeWhile (\<lambda>e. e \<noteq> Start d) (log s)"
      unfolding Other(1) using sd0 by (simp add: takeWhile_append1)
    have sp: "Start p \<in> set (log s') \<longleftrightarrow> Start p \<in> set (log s)"
      using Other by auto
    from od sd0 pd have "Finish p \<in> set (takeWhile (\<lambda>e. e \<noteq> Start d) (log s)) \<or>
        (Start p \<notin> set (log s) \<and> notified s p d)"
      by (simp add: ord_ok_def)
    then show "Finish p \<in> set (takeWhile (\<lambda>e. e \<noteq> Start d) (log s')) \<or>
        (Start p \<notin> set (log s') \<and> notified s' p d)"
      using tw sp notified_fire_mono [OF fire st] by auto
  qed
next
  case (Started i)
  let ?n = "tname (tasks s ! i)"
  have tl: "task_log (log s) ?n 5"
    using log_ok_task [OF lg Started(1)] Started(2) by simp
  then have new: "Start ?n \<notin> set (log s)" by (auto simp: task_log_def)
  have self: "\<And>d. \<not> notified s ?n d"
    using notified_unique [OF st Started(1)] Started(2) by simp
  show ?thesis
    unfolding ord_ok_def
  proof (intro allI impI)
    fix d p assume sd: "Start d \<in> set (log s')" and pd: "p \<in> lookup (treeOrder g) d"
    show "Finish p \<in> set (takeWhile (\<lambda>e. e \<noteq> Start d) (log s')) \<or>
        (Start p \<notin> set (log s') \<and> notified s' p d)"
    proof (cases "Start d \<in> set (log s)")
      case True
      have tw: "takeWhile (\<lambda>e. e \<noteq> Start d) (log s') = takeWhile (\<lambda>e. e \<noteq> Start d) (log s)"
        unfolding Started(3) using True by (simp add: takeWhile_append1)
      from od True pd have "Finish p \<in> set (takeWhile (\<lambda>e. e \<noteq> Start d) (log s)) \<or>
          (Start p \<notin> set (log s) \<and> notified s p d)"
        by (simp add: ord_ok_def)
      then show ?thesis
      proof
        assume "Finish p \<in> set (takeWhile (\<lambda>e. e \<noteq> Start d) (log s))"
        then show ?thesis using tw by simp
      next
        assume a: "Start p \<notin> set (log s) \<and> notified s p d"
        then have "p \<noteq> ?n" using self by auto
        then have "Start p \<notin> set (log s')" using a Started(3) by simp
        then show ?thesis using a notified_fire_mono [OF fire st] by blast
      qed
    next
      case False
      with sd Started(3) have d: "d = ?n" by auto
      have tw: "takeWhile (\<lambda>e. e \<noteq> Start d) (log s') = log s"
        unfolding Started(3) d using new by (rule takeWhile_until_last)
      have "pending g s ?n = {}"
        using ps Started(1,2) by (simp add: pass_ok_def)
      then have np: "notified s p d" using pd d by (auto simp: pending_def)
      then obtain j where j: "j < length (tasks s)" "tname (tasks s ! j) = p"
        "sent (tpc (tasks s ! j)) d" by (auto simp: notified_def)
      have "8 \<le> phase (tpc (tasks s ! j))" using j(3) by (rule sent_phase)
      moreover have "task_log (log s) p (phase (tpc (tasks s ! j)))"
        using log_ok_task [OF lg j(1)] j(2) by simp
      ultimately have fin: "Start p \<in> set (log s) \<Longrightarrow> Finish p \<in> set (log s)"
        by (simp add: task_log_def)
      show ?thesis
      proof (cases "Start p \<in> set (log s)")
        case True
        then show ?thesis using fin tw by simp
      next
        case nostart: False
        have "p \<noteq> ?n" using np self by auto
        then have "Start p \<notin> set (log s')" using nostart Started(3) by simp
        then show ?thesis using np notified_fire_mono [OF fire st] by blast
      qed
    qed
  qed
qed


definition run_ok :: "'a Graph \<Rightarrow> search \<Rightarrow> bool" where
  "run_ok g s \<longleftrightarrow>
     struct_ok s \<and> notif_ok g s \<and> groups_ok g s \<and> wg_ok s \<and> \<not> panicked s \<and>
     log_ok s \<and> pass_ok g s \<and> ord_ok g s"

lemma run_ok_fire:
  assumes "fire g l s = Some s'" and "wf_graph g" and "run_ok g s"
  shows "run_ok g s'"
proof -
  from assms(3) have st: "struct_ok s" and nf: "notif_ok g s" and gr: "groups_ok g s"
    and wg: "wg_ok s" and lg: "log_ok s" and ps: "pass_ok g s" and od: "ord_ok g s"
    by (simp_all add: run_ok_def)
  note f = assms(1) and wf = assms(2)
  show ?thesis
    unfolding run_ok_def
    using struct_ok_fire [OF f st] notif_ok_fire [OF f nf] groups_ok_fire [OF f wf st nf gr]
      wg_ok_fire [OF f wg] no_panic_fire [OF f wf st nf gr wg] log_ok_fire [OF f st lg]
      pass_ok_fire [OF f wf st gr ps] ord_ok_fire [OF f st lg ps od]
    by blast
qed

lemma run_ok_exec:
  "exec g ls s = Some s' \<Longrightarrow> wf_graph g \<Longrightarrow> run_ok g s \<Longrightarrow> run_ok g s'"
proof (induction ls arbitrary: s)
  case Nil
  then show ?case by simp
next
  case (Cons l ls)
  from Cons.prems(1) obtain s1 where f: "fire g l s = Some s1" and e: "exec g ls s1 = Some s'"
    by (cases "fire g l s") auto
  from run_ok_fire [OF f Cons.prems(2,3)] Cons.IH [OF e Cons.prems(2)] show ?case by blast
qed

lemma fresh_not_notified:
  "fresh_ok g s \<Longrightarrow> \<not> notified s p d"
  by (auto simp: fresh_ok_def notified_def)

lemma run_ok_started:
  assumes "started_ok g s"
  shows "run_ok g s"
proof -
  from assms have st: "struct_ok s" and fr: "fresh_ok g s"
    by (simp_all add: started_ok_def)
  have sp: "\<And>i. i < length (tasks s) \<Longrightarrow> tpc (tasks s ! i) = Spawned"
    using fr by (simp add: fresh_ok_def)
  have pe: "\<And>d. pending g s d = lookup (treeOrder g) d"
    using fresh_not_notified [OF fr] by (simp add: pending_def)
  have 1: "notif_ok g s" using sp by (simp add: notif_ok_def)
  have 2: "groups_ok g s" using fr pe by (simp add: groups_ok_def fresh_ok_def len_def)
  have "waiting s = {..<length (tasks s)}" using sp by (auto simp: waiting_def)
  then have 3: "wg_ok s" using fr by (simp add: wg_ok_def fresh_ok_def)
  have 4: "\<not> panicked s" using fr by (simp add: fresh_ok_def)
  have 5: "log_ok s" using fr sp by (simp add: log_ok_def fresh_ok_def task_log_def)
  have 6: "pass_ok g s" using sp by (simp add: pass_ok_def)
  have 7: "ord_ok g s" using fr by (simp add: ord_ok_def fresh_ok_def)
  from st 1 2 3 4 5 6 7 show ?thesis by (simp add: run_ok_def)
qed

text \<open>Every state of every session of a graph that the construction calls can make.\<close>

lemma session_run_ok:
  assumes "\<forall>i. range_ok (rng i)" and "session rng ca (build calls) schedule = Some (err, s)"
  shows "run_ok (build calls) s"
proof -
  from assms(2) obtain s0 where r: "Resolve rng ca (build calls) = Some (err, s0)"
    and e: "exec (build calls) schedule s0 = Some s"
    by (auto simp: session_def split: option.splits)
  have "resolve_post (build calls) ca err s0"
    using Resolve_post [OF wf_build assms(1), of ca calls] r by auto
  then have "started_ok (build calls) s0" by (simp add: resolve_post_def)
  then have "run_ok (build calls) s0" by (rule run_ok_started)
  with e show ?thesis using run_ok_exec wf_build by blast
qed

lemma split_at_first:
  assumes "x \<in> set xs" and "distinct xs"
  shows "\<exists>rest. xs = takeWhile (\<lambda>e. e \<noteq> x) xs @ x # rest \<and> x \<notin> set rest \<and>
           x \<notin> set (takeWhile (\<lambda>e. e \<noteq> x) xs)"
proof -
  have dw: "dropWhile (\<lambda>e. e \<noteq> x) xs \<noteq> []"
    using assms(1) by (simp add: dropWhile_eq_Nil_conv)
  then obtain y rest where yr: "dropWhile (\<lambda>e. e \<noteq> x) xs = y # rest"
    by (cases "dropWhile (\<lambda>e. e \<noteq> x) xs") auto
  have "\<not> (hd (dropWhile (\<lambda>e. e \<noteq> x) xs) \<noteq> x)"
    using dw by (rule hd_dropWhile)
  with yr have y: "y = x" by simp
  have eq: "xs = takeWhile (\<lambda>e. e \<noteq> x) xs @ x # rest"
    using takeWhile_dropWhile_id [of "\<lambda>e. e \<noteq> x" xs] yr y by simp
  have "distinct (takeWhile (\<lambda>e. e \<noteq> x) xs @ x # rest)"
    using assms(2) eq by simp
  then have "x \<notin> set rest \<and> x \<notin> set (takeWhile (\<lambda>e. e \<noteq> x) xs)" by auto
  with eq show ?thesis by blast
qed

definition chain_schedule :: "label list" where
  "chain_schedule =
     [Step 0, Step 1, Step 0, Step 1, Step 0, Step 1, Step 1, Tick, Step 1, Step 1, Tick,
      Step 1, Tick, Step 1, Notify 1 ''b'', Step 1, Step 0, Step 0, Step 0, Tick, Step 0,
      Step 0, Tick, Step 0, Watch]"

lemma session_chain:
  "\<exists>s. session anyOrder None (build chain_calls) chain_schedule = Some (None, s) \<and>
     log s = [Enter ''b'', Enter ''a'', Start ''a'', Finish ''a'', Exit ''a'',
              Start ''b'', Finish ''b'', Exit ''b''] \<and>
     ctxDone s \<and> Wait s ''b'' = 3 \<and> Action s ''b'' = 1 \<and> Total s ''b'' = 5"
  by (simp add: session_def chain_schedule_def walk_eval run_eval collectRoots_chain
      chain_simps Wait_def Action_def Total_def duration_def Time_Sub_def)

text \<open>
  C2. Let \<open>dependent\<close> depend on \<open>prerequisite\<close> in a graph that the construction calls
  made. In every state of every session (any range order, any moment of cancellation,
  any schedule) in which the actions of both have been started, the log is
  \<open>before @ Start dependent # after\<close> with the Finish of the prerequisite in \<open>before\<close>:
  the action of the prerequisite returned before the action of the dependent began.
  The dependent's action begins once only.
\<close>

theorem dependent_starts_after_prerequisite:
  assumes "\<forall>i. range_ok (rng i)"
    and "session rng cancelAt (build calls) schedule = Some (err, s)"
    and "prerequisite \<in> lookup (treeOrder (build calls)) dependent"
    and "Start prerequisite \<in> set (log s)"
    and "Start dependent \<in> set (log s)"
  shows "\<exists>before after. log s = before @ Start dependent # after \<and>
           Finish prerequisite \<in> set before \<and>
           Start dependent \<notin> set before \<and> Start dependent \<notin> set after"
proof -
  have ok: "run_ok (build calls) s" using assms(1,2) by (rule session_run_ok)
  then have od: "ord_ok (build calls) s" and d: "distinct (log s)"
    by (simp_all add: run_ok_def log_ok_def)
  let ?before = "takeWhile (\<lambda>e. e \<noteq> Start dependent) (log s)"
  from od assms(3,4,5) have fin: "Finish prerequisite \<in> set ?before"
    unfolding ord_ok_def by blast
  from split_at_first [OF assms(5) d] obtain after where
    "log s = ?before @ Start dependent # after" "Start dependent \<notin> set after"
    "Start dependent \<notin> set ?before" by blast
  with fin show ?thesis by blast
qed

theorem dependent_starts_after_prerequisite_witness:
  "''a'' \<in> lookup (treeOrder (build chain_calls)) ''b'' \<and>
   (\<exists>s. session anyOrder None (build chain_calls) chain_schedule = Some (None, s) \<and>
      Start ''a'' \<in> set (log s) \<and> Start ''b'' \<in> set (log s) \<and>
      (\<exists>before after. log s = before @ Start ''b'' # after \<and> Finish ''a'' \<in> set before \<and>
         Start ''b'' \<notin> set before \<and> Start ''b'' \<notin> set after))"
proof -
  have e: "''a'' \<in> lookup (treeOrder (build chain_calls)) ''b''"
    by (simp add: chain_simps)
  from session_chain obtain s where
    s: "session anyOrder None (build chain_calls) chain_schedule = Some (None, s)"
    and a: "Start ''a'' \<in> set (log s)" and b: "Start ''b'' \<in> set (log s)"
    by auto
  from dependent_starts_after_prerequisite [OF range_ok_anyOrder s e a b] e s a b
  show ?thesis by blast
qed


section \<open>The statistics\<close>

lemma fire_record [consumes 1, case_names Quiet Enter Start Finish Exit]:
  assumes "fire g l s = Some s'"
  obtains
    (Quiet) "log s' = log s" "enter s' = enter s" "start s' = start s"
      "finish s' = finish s" "exit s' = exit s" "now s \<le> now s'"
  | (Enter) i where "i < length (tasks s)" "tpc (tasks s ! i) = Spawned"
      "log s' = log s @ [Enter (tname (tasks s ! i))]"
      "enter s' = (enter s)(tname (tasks s ! i) \<mapsto> now s)"
      "start s' = start s" "finish s' = finish s" "exit s' = exit s" "now s' = now s"
  | (Start) i where "i < length (tasks s)" "tpc (tasks s ! i) = Starting"
      "log s' = log s @ [Start (tname (tasks s ! i))]"
      "start s' = (start s)(tname (tasks s ! i) \<mapsto> now s)"
      "enter s' = enter s" "finish s' = finish s" "exit s' = exit s" "now s' = now s"
  | (Finish) i where "i < length (tasks s)" "tpc (tasks s ! i) = Running"
      "log s' = log s @ [Finish (tname (tasks s ! i))]"
      "finish s' = (finish s)(tname (tasks s ! i) \<mapsto> now s)"
      "enter s' = enter s" "start s' = start s" "exit s' = exit s" "now s' = now s"
  | (Exit) i where "i < length (tasks s)" "tpc (tasks s ! i) = Notifying {}"
      "log s' = log s @ [Exit (tname (tasks s ! i))]"
      "exit s' = (exit s)(tname (tasks s ! i) \<mapsto> now s)"
      "enter s' = enter s" "start s' = start s" "finish s' = finish s" "now s' = now s"
  using assms
proof (cases rule: fire_cases)
  case (Enter i)
  have "i < length (tasks s)" using Enter(4) by (simp add: moved_def)
  then show ?thesis
    using that(2) [of i] Enter(3)
    by (simp add: Enter(5) recorder_Enter_def setpc_def recordTime_def)
next
  case (Start i)
  have "i < length (tasks s)" using Start(4) by (simp add: moved_def)
  then show ?thesis
    using that(3) [of i] Start(3)
    by (simp add: Start(5) recorder_Start_def setpc_def recordTime_def)
next
  case (Finish i)
  have "i < length (tasks s)" using Finish(4) by (simp add: moved_def)
  then show ?thesis
    using that(4) [of i] Finish(3)
    by (simp add: Finish(5) recorder_Finish_def setpc_def recordTime_def)
next
  case (Exit i)
  have "i < length (tasks s)" using Exit(4) by (simp add: moved_def)
  then show ?thesis
    using that(5) [of i] Exit(3)
    by (simp add: Exit(5) recorder_Exit_def setpc_def recordTime_def)
next
  case (Barrier i)
  then show ?thesis using that(1) by (simp add: setpc_def)
next
  case (Check1 i)
  then show ?thesis using that(1) by (simp add: setpc_def)
next
  case (Latch i)
  then show ?thesis using that(1) by (simp add: setpc_def)
next
  case (Check2 i)
  then show ?thesis using that(1) by (simp add: setpc_def)
next
  case (DonePanic i)
  then show ?thesis using that(1) by simp
next
  case (Done i)
  then show ?thesis using that(1) by (simp add: setpc_def)
next
  case (NotifyNone i parent ps)
  then show ?thesis using that(1) by (simp add: setpc_def)
next
  case (NotifyPanic i parent ps j)
  then show ?thesis using that(1) by simp
next
  case (NotifySome i parent ps j)
  then show ?thesis using that(1) by (simp add: setpc_def)
next
  case Watch
  then show ?thesis using that(1) by simp
next
  case Cancel
  then show ?thesis using that(1) by simp
next
  case Tick
  then show ?thesis using that(1) by simp
qed

definition events_ok :: "search \<Rightarrow> bool" where
  "events_ok s \<longleftrightarrow>
     (\<forall>e\<in>set (log s). \<exists>i<length (tasks s). tname (tasks s ! i) = event_name e)"

lemma events_ok_fire:
  assumes fire: "fire g l s = Some s'" and ev: "events_ok s"
  shows "events_ok s'"
proof -
  have len: "length (tasks s') = length (tasks s)" using fire by (rule fire_length)
  have nm: "\<And>j. tname (tasks s' ! j) = tname (tasks s ! j)" using fire by (rule fire_tname)
  have "\<forall>e\<in>set (log s'). \<exists>i<length (tasks s). tname (tasks s ! i) = event_name e"
    using fire
  proof (cases rule: fire_record)
    case Quiet
    then show ?thesis using ev by (simp add: events_ok_def)
  next
    case (Enter i)
    then show ?thesis using ev by (auto simp: events_ok_def)
  next
    case (Start i)
    then show ?thesis using ev by (auto simp: events_ok_def)
  next
    case (Finish i)
    then show ?thesis using ev by (auto simp: events_ok_def)
  next
    case (Exit i)
    then show ?thesis using ev by (auto simp: events_ok_def)
  qed
  then show ?thesis unfolding events_ok_def len nm .
qed

text \<open>
  The four maps of the statistics hold a time stamp exactly for the recorded events;
  no stamp is later than the clock, and the stamps of one name are in the order
  Enter, Start, Finish, Exit.
\<close>

fun before :: "int option \<Rightarrow> int option \<Rightarrow> bool" where
  "before (Some x) (Some y) = (x \<le> y)"
| "before _ _ = True"

definition stamps ::
    "event list \<Rightarrow> string \<Rightarrow> int \<Rightarrow> int option \<Rightarrow> int option \<Rightarrow> int option \<Rightarrow> int option \<Rightarrow> bool"
  where
  "stamps L n t e b c d \<longleftrightarrow>
     (e \<noteq> None \<longleftrightarrow> Enter n \<in> set L) \<and> (b \<noteq> None \<longleftrightarrow> Start n \<in> set L) \<and>
     (c \<noteq> None \<longleftrightarrow> Finish n \<in> set L) \<and> (d \<noteq> None \<longleftrightarrow> Exit n \<in> set L) \<and>
     before e (Some t) \<and> before b (Some t) \<and> before c (Some t) \<and> before d (Some t) \<and>
     before e b \<and> before b c \<and> before c d \<and> before e d"

definition stat_ok :: "search \<Rightarrow> bool" where
  "stat_ok s \<longleftrightarrow>
     (\<forall>n. stamps (log s) n (now s) (enter s n) (start s n) (finish s n) (exit s n))"

lemma before_later: "before x (Some t) \<Longrightarrow> t \<le> t' \<Longrightarrow> before x (Some t')"
  by (cases x) simp_all

lemma before_None [simp]: "before x None"
  by (cases x) simp_all

lemma stamps_other:
  "stamps L n t e b c d \<Longrightarrow> event_name ev \<noteq> n \<Longrightarrow> stamps (L @ [ev]) n t e b c d"
  by (cases ev) (simp_all add: stamps_def)

lemma stamps_later: "stamps L n t e b c d \<Longrightarrow> t \<le> t' \<Longrightarrow> stamps L n t' e b c d"
  unfolding stamps_def using before_later by blast

lemma stamps_Enter:
  "stamps L n t e b c d \<Longrightarrow> Start n \<notin> set L \<Longrightarrow> Finish n \<notin> set L \<Longrightarrow> Exit n \<notin> set L \<Longrightarrow>
   stamps (L @ [Enter n]) n t (Some t) b c d"
  by (simp add: stamps_def)

lemma stamps_Start:
  "stamps L n t e b c d \<Longrightarrow> Finish n \<notin> set L \<Longrightarrow> Exit n \<notin> set L \<Longrightarrow>
   stamps (L @ [Start n]) n t e (Some t) c d"
  by (simp add: stamps_def)

lemma stamps_Finish:
  "stamps L n t e b c d \<Longrightarrow> Exit n \<notin> set L \<Longrightarrow> stamps (L @ [Finish n]) n t e b (Some t) d"
  by (simp add: stamps_def)

lemma stamps_Exit:
  "stamps L n t e b c d \<Longrightarrow> stamps (L @ [Exit n]) n t e b c (Some t)"
  by (simp add: stamps_def)

lemma stat_ok_fire:
  assumes fire: "fire g l s = Some s'" and lg: "log_ok s" and sk: "stat_ok s"
  shows "stat_ok s'"
  unfolding stat_ok_def
proof
  fix n
  have old: "stamps (log s) n (now s) (enter s n) (start s n) (finish s n) (exit s n)"
    using sk by (simp add: stat_ok_def)
  show "stamps (log s') n (now s') (enter s' n) (start s' n) (finish s' n) (exit s' n)"
    using fire
  proof (cases rule: fire_record)
    case Quiet
    then show ?thesis using stamps_later [OF old] by simp
  next
    case (Enter i)
    have tl: "task_log (log s) (tname (tasks s ! i)) 0"
      using log_ok_task [OF lg Enter(1)] Enter(2) by simp
    show ?thesis
    proof (cases "n = tname (tasks s ! i)")
      case True
      from tl True have "Start n \<notin> set (log s)" "Finish n \<notin> set (log s)" "Exit n \<notin> set (log s)"
        by (auto simp: task_log_def)
      from stamps_Enter [OF old this] show ?thesis using True Enter by simp
    next
      case False
      then show ?thesis using stamps_other [OF old, of "Enter (tname (tasks s ! i))"] Enter
        by simp
    qed
  next
    case (Start i)
    have tl: "task_log (log s) (tname (tasks s ! i)) 5"
      using log_ok_task [OF lg Start(1)] Start(2) by simp
    show ?thesis
    proof (cases "n = tname (tasks s ! i)")
      case True
      from tl True have "Finish n \<notin> set (log s)" "Exit n \<notin> set (log s)"
        by (auto simp: task_log_def)
      from stamps_Start [OF old this] show ?thesis using True Start by simp
    next
      case False
      then show ?thesis using stamps_other [OF old, of "Start (tname (tasks s ! i))"] Start
        by simp
    qed
  next
    case (Finish i)
    have tl: "task_log (log s) (tname (tasks s ! i)) 6"
      using log_ok_task [OF lg Finish(1)] Finish(2) by simp
    show ?thesis
    proof (cases "n = tname (tasks s ! i)")
      case True
      from tl True have "Exit n \<notin> set (log s)"
        by (auto simp: task_log_def)
      from stamps_Finish [OF old this] show ?thesis using True Finish by simp
    next
      case False
      then show ?thesis using stamps_other [OF old, of "Finish (tname (tasks s ! i))"] Finish
        by simp
    qed
  next
    case (Exit i)
    show ?thesis
    proof (cases "n = tname (tasks s ! i)")
      case True
      from stamps_Exit [OF old] show ?thesis using True Exit by simp
    next
      case False
      then show ?thesis using stamps_other [OF old, of "Exit (tname (tasks s ! i))"] Exit
        by simp
    qed
  qed
qed


definition rec_ok :: "'a Graph \<Rightarrow> search \<Rightarrow> bool" where
  "rec_ok g s \<longleftrightarrow> run_ok g s \<and> events_ok s \<and> stat_ok s"

lemma rec_ok_exec:
  "exec g ls s = Some s' \<Longrightarrow> wf_graph g \<Longrightarrow> rec_ok g s \<Longrightarrow> rec_ok g s'"
proof (induction ls arbitrary: s)
  case Nil
  then show ?case by simp
next
  case (Cons l ls)
  from Cons.prems(1) obtain s1 where f: "fire g l s = Some s1" and e: "exec g ls s1 = Some s'"
    by (cases "fire g l s") auto
  from Cons.prems(3) have r: "run_ok g s" and ev: "events_ok s" and sk: "stat_ok s"
    by (simp_all add: rec_ok_def)
  from r have lg: "log_ok s" by (simp add: run_ok_def)
  have "rec_ok g s1"
    unfolding rec_ok_def
    using run_ok_fire [OF f Cons.prems(2) r] events_ok_fire [OF f ev] stat_ok_fire [OF f lg sk]
    by blast
  with Cons.IH [OF e Cons.prems(2)] show ?case by blast
qed

lemma rec_ok_started: "started_ok g s \<Longrightarrow> rec_ok g s"
  by (simp add: rec_ok_def run_ok_started events_ok_def stat_ok_def stamps_def
      started_ok_def fresh_ok_def)

lemma session_rec_ok:
  assumes "\<forall>i. range_ok (rng i)" and "session rng ca (build calls) schedule = Some (err, s)"
  shows "rec_ok (build calls) s"
proof -
  from assms(2) obtain s0 where r: "Resolve rng ca (build calls) = Some (err, s0)"
    and e: "exec (build calls) schedule s0 = Some s"
    by (auto simp: session_def split: option.splits)
  have "resolve_post (build calls) ca err s0"
    using Resolve_post [OF wf_build assms(1), of ca calls] r by auto
  then have "started_ok (build calls) s0" by (simp add: resolve_post_def)
  then have "rec_ok (build calls) s0" by (rule rec_ok_started)
  with e show ?thesis using rec_ok_exec wf_build by blast
qed

subsection \<open>Durations\<close>

lemma sint_word_of_int_small:
  "- (2 ^ 63) \<le> k \<Longrightarrow> k < 2 ^ 63 \<Longrightarrow> sint (word_of_int k :: 64 word) = k"
  by (simp add: sint_sbintrunc' signed_take_bit_int_eq_self)

lemma sint_minDuration: "sint minDuration = - (2 ^ 63)"
  unfolding minDuration_def by (rule sint_word_of_int_small) simp_all

lemma sint_maxDuration: "sint maxDuration = 2 ^ 63 - 1"
  unfolding maxDuration_def by (rule sint_word_of_int_small) simp_all

lemma sint_Time_Sub:
  "sint (Time_Sub t u) = max (- (2 ^ 63)) (min (t - u) (2 ^ 63 - 1))"
proof -
  consider "t - u < - (2 ^ 63)" | "2 ^ 63 - 1 < t - u"
    | "- (2 ^ 63) \<le> t - u" "t - u < 2 ^ 63" by linarith
  then show ?thesis
  proof cases
    case 1
    then have "Time_Sub t u = minDuration" by (simp only: Time_Sub_def if_True)
    with 1 show ?thesis by (simp add: sint_minDuration)
  next
    case 2
    then have "Time_Sub t u = maxDuration" by (simp only: Time_Sub_def) simp
    with 2 show ?thesis by (simp add: sint_maxDuration)
  next
    case 3
    then have "Time_Sub t u = word_of_int (t - u)" by (simp only: Time_Sub_def) simp
    moreover have "sint (word_of_int (t - u) :: 64 word) = t - u"
      using 3 by (rule sint_word_of_int_small)
    ultimately show ?thesis using 3 by simp
  qed
qed

lemma word_eq_sint: "x = y \<longleftrightarrow> sint x = sint y"
  by (rule word_eq_iff_signed)

lemma Time_Sub_nonneg: "u \<le> t \<Longrightarrow> 0 \<le> sint (Time_Sub t u)"
  by (simp add: sint_Time_Sub)

lemma Time_Sub_zero_iff: "u \<le> t \<Longrightarrow> Time_Sub t u = 0 \<longleftrightarrow> t = u"
  unfolding word_eq_sint [of "Time_Sub t u"] sint_Time_Sub sint_0 by auto

lemma Time_Sub_max_iff: "u \<le> t \<Longrightarrow> Time_Sub t u = maxDuration \<longleftrightarrow> 2 ^ 63 - 1 \<le> t - u"
  unfolding word_eq_sint [of "Time_Sub t u"] sint_Time_Sub sint_maxDuration by auto

lemma sint_add_nonneg:
  fixes x y :: "64 word"
  assumes "0 \<le> sint x" "0 \<le> sint y"
  shows "sint x + sint y < 2 ^ 63 \<Longrightarrow> sint (x + y) = sint x + sint y"
    and "2 ^ 63 \<le> sint x + sint y \<Longrightarrow> sint (x + y) < 0"
proof -
  have x: "sint x < 2 ^ 63" and y: "sint y < 2 ^ 63"
    using sint_lt [of x] sint_lt [of y] by simp_all
  have e: "sint (x + y) = signed_take_bit 63 (sint x + sint y)"
    by (simp add: sint_word_add)
  show "sint (x + y) = sint x + sint y" if "sint x + sint y < 2 ^ 63"
    unfolding e using that assms by (intro signed_take_bit_int_eq_self) simp_all
  show "sint (x + y) < 0" if "2 ^ 63 \<le> sint x + sint y"
  proof -
    have "signed_take_bit 63 (sint x + sint y) \<le> sint x + sint y - 2 ^ Suc 63"
      using that by (rule signed_take_bit_int_less_eq)
    moreover have "(2::int) ^ Suc 63 = 2 ^ 63 + 2 ^ 63" by simp
    ultimately show ?thesis unfolding e using x y by linarith
  qed
qed

text \<open>
  Between ordered stamps: the sum of two adjacent Durations, which may wrap around,
  never exceeds the Duration between the outer stamps.
\<close>

lemma Time_Sub_sum_le:
  assumes "a \<le> b" "b \<le> c" "c \<le> d"
  shows "sint (Time_Sub b a + Time_Sub c b) \<le> sint (Time_Sub d a)"
proof -
  let ?W = "Time_Sub b a" and ?A = "Time_Sub c b"
  have w: "0 \<le> sint ?W" and ac: "0 \<le> sint ?A" and t: "0 \<le> sint (Time_Sub d a)"
    using assms by (simp_all add: Time_Sub_nonneg)
  show ?thesis
  proof (cases "sint ?W + sint ?A < 2 ^ 63")
    case True
    then have "sint (?W + ?A) = sint ?W + sint ?A" by (rule sint_add_nonneg(1) [OF w ac])
    moreover have "sint ?W + sint ?A \<le> sint (Time_Sub d a)"
      using True assms unfolding sint_Time_Sub by auto
    ultimately show ?thesis by simp
  next
    case False
    then have "sint (?W + ?A) < 0" by (intro sint_add_nonneg(2) [OF w ac]) simp
    with t show ?thesis by simp
  qed
qed

lemma Time_Sub_sum_eq_iff:
  assumes "a \<le> b" "b \<le> c" "c \<le> d" and "Time_Sub d a \<noteq> maxDuration"
  shows "Time_Sub b a + Time_Sub c b = Time_Sub d a \<longleftrightarrow> d = c"
proof -
  let ?W = "Time_Sub b a" and ?A = "Time_Sub c b"
  have w: "0 \<le> sint ?W" and ac: "0 \<le> sint ?A"
    using assms by (simp_all add: Time_Sub_nonneg)
  have small: "d - a < 2 ^ 63 - 1"
    using assms(4) Time_Sub_max_iff [of a d] assms(1-3) by simp
  have lt: "sint ?W + sint ?A < 2 ^ 63"
    using small assms(1-3) unfolding sint_Time_Sub by auto
  have "sint (?W + ?A) = sint ?W + sint ?A" using lt by (rule sint_add_nonneg(1) [OF w ac])
  then have "sint (?W + ?A) = c - a"
    using small assms(1-3) unfolding sint_Time_Sub by auto
  moreover have "sint (Time_Sub d a) = d - a"
    using small assms(1-3) unfolding sint_Time_Sub by auto
  ultimately show ?thesis
    unfolding word_eq_sint [of "?W + ?A"] by linarith
qed

lemma duration_nonneg:
  "before (from name) (to name) \<Longrightarrow> 0 \<le> sint (duration from to name)"
  by (cases "from name"; cases "to name") (simp_all add: duration_def Time_Sub_nonneg)

lemma duration_unset:
  "from name = None \<or> to name = None \<Longrightarrow> duration from to name = 0"
  by (auto simp: duration_def split: option.splits)

text \<open>The log of a goroutine is closed downwards, and only goroutines write to it.\<close>

lemma log_closed:
  assumes "log_ok s" and "events_ok s"
  shows "(Start name \<in> set (log s) \<longrightarrow> Enter name \<in> set (log s)) \<and>
         (Finish name \<in> set (log s) \<longrightarrow> Start name \<in> set (log s)) \<and>
         (Exit name \<in> set (log s) \<longrightarrow> Enter name \<in> set (log s)) \<and>
         (Exit name \<in> set (log s) \<longrightarrow> Start name \<in> set (log s) \<longrightarrow>
            Finish name \<in> set (log s))"
proof (cases "\<exists>i<length (tasks s). tname (tasks s ! i) = name")
  case True
  then obtain i where i: "i < length (tasks s)" "tname (tasks s ! i) = name" by blast
  have "task_log (log s) name (phase (tpc (tasks s ! i)))"
    using log_ok_task [OF assms(1) i(1)] i(2) by simp
  then show ?thesis unfolding task_log_def by auto
next
  case False
  have "e \<notin> set (log s)" if "event_name e = name" for e
    using assms(2) False that unfolding events_ok_def by blast
  then have "Start name \<notin> set (log s)" "Finish name \<notin> set (log s)"
    "Exit name \<notin> set (log s)" by simp_all
  then show ?thesis by simp
qed

text \<open>
  What a session's statistics say about a name: whether the derived context is done,
  whether the action of the name was started, whether its Exit is recorded, and its
  wait, action and total.
\<close>

definition report ::
    "(error option \<times> search) option \<Rightarrow> string
      \<Rightarrow> (bool \<times> bool \<times> bool \<times> Duration \<times> Duration \<times> Duration) option" where
  "report r name =
     map_option (\<lambda>(err, s). (ctxDone s, Start name \<in> set (log s), Exit name \<in> set (log s),
        Wait s name, Action s name, Total s name)) r"

text \<open>
  A session of the chain in which the caller's signal is done before the call: the
  goroutine of \<open>b\<close> enters, the clock advances twice, and the goroutine skips its action
  and exits.
\<close>

definition skip_schedule :: "label list" where
  "skip_schedule = [Step 0, Tick, Tick, Step 0, Step 0, Step 0, Step 0]"

text \<open>
  A session of the chain that follows \<open>chain_schedule\<close> until the goroutine of \<open>b\<close> has
  executed \<^verbatim>\<open>s.wg.Done()\<close>; then the watcher runs, before the deferred \<^verbatim>\<open>Exit\<close> of \<open>b\<close>.
\<close>

definition pending_schedule :: "label list" where
  "pending_schedule =
     [Step 0, Step 1, Step 0, Step 1, Step 0, Step 1, Step 1, Tick, Step 1, Step 1, Tick,
      Step 1, Tick, Step 1, Notify 1 ''b'', Step 1, Step 0, Step 0, Step 0, Tick, Step 0,
      Step 0, Watch]"

text \<open>
  C8, as stated, fails in three ways. In the session of the chain under
  \<open>chain_schedule\<close> the action of \<open>b\<close> ran, with wait 3, action 1 and total 5: the
  deferred \<^verbatim>\<open>visitComplete\<close> and \<^verbatim>\<open>Exit\<close> come after \<^verbatim>\<open>Finish\<close>, and the clock advanced
  in between. In the session under \<open>skip_schedule\<close> the action of \<open>b\<close> was skipped, and
  its total is 2, not zero: Enter and Exit are both recorded for a skipped action. In
  the session under \<open>pending_schedule\<close> the derived context is done and the action of
  \<open>b\<close> ran, with wait 3 and action 1, but its total is 0: \<^verbatim>\<open>s.wg.Done()\<close> comes before
  the deferred \<^verbatim>\<open>Exit\<close>, which is not recorded yet.
\<close>

theorem statistics_sum_counterexample:
  "report (session anyOrder None (build chain_calls) chain_schedule) ''b''
     = Some (True, True, True, 3, 1, 5) \<and>
   report (session anyOrder (Some 0) (build chain_calls) skip_schedule) ''b''
     = Some (True, False, True, 0, 0, 2) \<and>
   report (session anyOrder None (build chain_calls) pending_schedule) ''b''
     = Some (True, True, False, 3, 1, 0)"
  by (simp add: report_def session_def chain_schedule_def skip_schedule_def
      pending_schedule_def walk_eval run_eval collectRoots_chain chain_simps
      Wait_def Action_def Total_def duration_def Time_Sub_def)

text \<open>
  C8, amended. In every state of every session and for every name, wait, action and
  total are not negative. They are all zero for a name without Enter (no goroutine
  has entered for it); wait and action are zero while the action has not started, so
  whenever it was skipped; action is zero until Finish, and total is zero until Exit is
  recorded. Once Exit is recorded, the sum of wait and action is at most the total;
  when the action ran, and the total is not the greatest Duration, the sum equals the
  total exactly when Exit and Finish were recorded at the same instant; when the
  action was skipped, the total is the time from Enter to Exit, zero exactly when
  both were recorded at the same instant.
\<close>

theorem statistics_of_every_name:
  assumes "\<forall>i. range_ok (rng i)"
    and "session rng cancelAt (build calls) schedule = Some (err, s)"
  shows "0 \<le> sint (Wait s name) \<and> 0 \<le> sint (Action s name) \<and> 0 \<le> sint (Total s name) \<and>
     (Enter name \<notin> set (log s) \<longrightarrow>
        Wait s name = 0 \<and> Action s name = 0 \<and> Total s name = 0) \<and>
     (Start name \<notin> set (log s) \<longrightarrow> Wait s name = 0 \<and> Action s name = 0) \<and>
     (Finish name \<notin> set (log s) \<longrightarrow> Action s name = 0) \<and>
     (Exit name \<notin> set (log s) \<longrightarrow> Total s name = 0) \<and>
     (Exit name \<in> set (log s) \<longrightarrow>
        sint (Wait s name + Action s name) \<le> sint (Total s name) \<and>
        (Start name \<notin> set (log s) \<longrightarrow>
           (Total s name = 0 \<longleftrightarrow> exit s name = enter s name)) \<and>
        (Start name \<in> set (log s) \<longrightarrow> Total s name \<noteq> maxDuration \<longrightarrow>
           (Wait s name + Action s name = Total s name \<longleftrightarrow> exit s name = finish s name)))"
proof -
  have ok: "rec_ok (build calls) s" using assms by (rule session_rec_ok)
  then have lg: "log_ok s" and ev: "events_ok s" and sk: "stat_ok s"
    by (simp_all add: rec_ok_def run_ok_def)
  note cl = log_closed [OF lg ev, of name]
  have st: "stamps (log s) name (now s) (enter s name) (start s name) (finish s name)
      (exit s name)"
    using sk by (simp add: stat_ok_def)
  then have eb: "before (enter s name) (start s name)"
    and bc: "before (start s name) (finish s name)"
    and ed: "before (enter s name) (exit s name)"
    and cd: "before (finish s name) (exit s name)"
    and e: "enter s name = None \<longleftrightarrow> Enter name \<notin> set (log s)"
    and b: "start s name = None \<longleftrightarrow> Start name \<notin> set (log s)"
    and c: "finish s name = None \<longleftrightarrow> Finish name \<notin> set (log s)"
    and d: "exit s name = None \<longleftrightarrow> Exit name \<notin> set (log s)"
    by (auto simp: stamps_def)
  have 1: "0 \<le> sint (Wait s name)" "0 \<le> sint (Action s name)" "0 \<le> sint (Total s name)"
    unfolding Wait_def Action_def Total_def using eb bc ed by (simp_all add: duration_nonneg)
  have 2: "Wait s name = 0 \<and> Action s name = 0" if "Start name \<notin> set (log s)"
    unfolding Wait_def Action_def using that b by (simp add: duration_unset)
  have 3: "Action s name = 0" if "Finish name \<notin> set (log s)"
    unfolding Action_def using that c by (simp add: duration_unset)
  have 4: "Total s name = 0" if "Exit name \<notin> set (log s)"
    unfolding Total_def using that d by (simp add: duration_unset)
  have 5: "Wait s name = 0 \<and> Action s name = 0 \<and> Total s name = 0"
    if "Enter name \<notin> set (log s)"
    using that cl 2 4 by blast
  have 6: "sint (Wait s name + Action s name) \<le> sint (Total s name) \<and>
        (Start name \<notin> set (log s) \<longrightarrow>
           (Total s name = 0 \<longleftrightarrow> exit s name = enter s name)) \<and>
        (Start name \<in> set (log s) \<longrightarrow> Total s name \<noteq> maxDuration \<longrightarrow>
           (Wait s name + Action s name = Total s name \<longleftrightarrow> exit s name = finish s name))"
    if x: "Exit name \<in> set (log s)"
  proof -
    from x cl have en: "Enter name \<in> set (log s)" by blast
    from en e x d obtain t0 t3 where t0: "enter s name = Some t0" and t3: "exit s name = Some t3"
      by auto
    from ed t0 t3 have le03: "t0 \<le> t3" by simp
    have T: "Total s name = Time_Sub t3 t0" by (simp add: Total_def duration_def t0 t3)
    show ?thesis
    proof (cases "Start name \<in> set (log s)")
      case False
      with 2 have z: "Wait s name = 0" "Action s name = 0" by simp_all
      have "0 \<le> sint (Total s name)" by (rule 1)
      moreover have "Total s name = 0 \<longleftrightarrow> exit s name = enter s name"
        unfolding T t0 t3 using Time_Sub_zero_iff [OF le03] by auto
      ultimately show ?thesis using False z by simp
    next
      case True
      with x cl have "Finish name \<in> set (log s)" by blast
      with True b c obtain t1 t2 where t1: "start s name = Some t1"
        and t2: "finish s name = Some t2" by auto
      from eb bc cd t0 t1 t2 t3 have le: "t0 \<le> t1" "t1 \<le> t2" "t2 \<le> t3" by simp_all
      have W: "Wait s name = Time_Sub t1 t0" by (simp add: Wait_def duration_def t0 t1)
      have A: "Action s name = Time_Sub t2 t1" by (simp add: Action_def duration_def t1 t2)
      have "sint (Wait s name + Action s name) \<le> sint (Total s name)"
        unfolding W A T using le by (rule Time_Sub_sum_le)
      moreover have "Wait s name + Action s name = Total s name \<longleftrightarrow>
          exit s name = finish s name" if "Total s name \<noteq> maxDuration"
        using Time_Sub_sum_eq_iff [OF le] that unfolding W A T t2 t3 by simp
      ultimately show ?thesis using True by blast
    qed
  qed
  from 1 2 3 4 5 6 show ?thesis by blast
qed

theorem statistics_of_every_name_witness:
  "\<exists>s. session anyOrder None (build chain_calls) chain_schedule = Some (None, s) \<and>
     Enter ''b'' \<in> set (log s) \<and> Start ''b'' \<in> set (log s) \<and> Exit ''b'' \<in> set (log s) \<and>
     Total s ''b'' = 5 \<and> Total s ''b'' \<noteq> maxDuration \<and>
     sint (Wait s ''b'' + Action s ''b'') \<le> sint (Total s ''b'') \<and>
     (Wait s ''b'' + Action s ''b'' = Total s ''b'' \<longleftrightarrow> exit s ''b'' = finish s ''b'')"
proof -
  from session_chain obtain s where
    s: "session anyOrder None (build chain_calls) chain_schedule = Some (None, s)"
    and l: "Enter ''b'' \<in> set (log s)" "Start ''b'' \<in> set (log s)" "Exit ''b'' \<in> set (log s)"
    and t: "Total s ''b'' = 5"
    by auto
  have m: "Total s ''b'' \<noteq> maxDuration" by (simp add: t maxDuration_def)
  from statistics_of_every_name [OF range_ok_anyOrder s, of "''b''"] l m
  have "sint (Wait s ''b'' + Action s ''b'') \<le> sint (Total s ''b'') \<and>
     (Wait s ''b'' + Action s ''b'' = Total s ''b'' \<longleftrightarrow> exit s ''b'' = finish s ''b'')"
    by blast
  with s l t m show ?thesis by blast
qed


section \<open>Completion\<close>

text \<open>
  A step of a goroutine moves it forward. It arrives at \<^verbatim>\<open>visitComplete\<close> either from
  its action, with Finish recorded, or from one of the two checks, with the context
  done.
\<close>

lemma fire_forward [consumes 2, case_names Moved Watch Cancel Tick]:
  assumes "fire g l s = Some s'" and "\<not> panicked s'"
  obtains
    (Moved) i p where "l = Step i \<or> (\<exists>parent. l = Notify i parent)"
      "moved s i p s'" "phase (tpc (tasks s ! i)) \<le> phase p"
      "ctxDone s' = ctxDone s" "watcher s' = watcher s" "set (log s) \<subseteq> set (log s')"
      "phase p = 7 \<Longrightarrow> ctxDone s \<or> Finish (tname (tasks s ! i)) \<in> set (log s')"
      "8 \<le> phase p \<Longrightarrow> 7 \<le> phase (tpc (tasks s ! i))"
  | (Watch) "l = Watch" "watcher s" "wg s = 0" "s' = s\<lparr>ctxDone := True, watcher := False\<rparr>"
  | (Cancel) "l = Cancel"
  | (Tick) "l = Tick" "s' = s\<lparr>now := now s + 1\<rparr>"
  using assms(1)
proof (cases rule: fire_cases)
  case (Enter i)
  show ?thesis
    by (rule Moved [of i AtBarrier])
      (use Enter in \<open>auto simp: recorder_Enter_def setpc_def\<close>)
next
  case (Barrier i)
  show ?thesis
    by (rule Moved [of i CheckFirst]) (use Barrier in \<open>simp_all add: setpc_def\<close>)
next
  case (Check1 i)
  show ?thesis
    by (rule Moved [of i "if ctxDone s then Completing else AtLatch"])
      (use Check1 in \<open>simp_all add: setpc_def split: if_splits\<close>)
next
  case (Latch i)
  show ?thesis
    by (rule Moved [of i CheckSecond]) (use Latch in \<open>simp_all add: setpc_def\<close>)
next
  case (Check2 i)
  show ?thesis
    by (rule Moved [of i "if ctxDone s then Completing else Starting"])
      (use Check2 in \<open>simp_all add: setpc_def split: if_splits\<close>)
next
  case (Start i)
  show ?thesis
    by (rule Moved [of i Running])
      (use Start in \<open>auto simp: recorder_Start_def setpc_def\<close>)
next
  case (Finish i)
  show ?thesis
    by (rule Moved [of i Completing])
      (use Finish in \<open>auto simp: recorder_Finish_def setpc_def\<close>)
next
  case (DonePanic i)
  with assms(2) show ?thesis by simp
next
  case (Done i)
  show ?thesis
    by (rule Moved [of i "Notifying (lookup (graphOrder g) (tname (tasks s ! i)))"])
      (use Done in \<open>simp_all add: setpc_def\<close>)
next
  case (NotifyNone i parent ps)
  show ?thesis
    by (rule Moved [of i "Notifying (ps - {parent})"])
      (use NotifyNone in \<open>simp_all add: setpc_def\<close>)
next
  case (NotifyPanic i parent ps j)
  with assms(2) show ?thesis by simp
next
  case (NotifySome i parent ps j)
  show ?thesis
    by (rule Moved [of i "Notifying (ps - {parent})"])
      (use NotifySome in \<open>simp_all add: setpc_def\<close>)
next
  case (Exit i)
  show ?thesis
    by (rule Moved [of i Finished])
      (use Exit in \<open>auto simp: recorder_Exit_def setpc_def\<close>)
next
  case Watch
  then show ?thesis using that(2) by blast
next
  case Cancel
  then show ?thesis using that(3) by blast
next
  case Tick
  then show ?thesis using that(4) by blast
qed

text \<open>
  While the caller's signal stays live: a goroutine that is past its action has
  recorded its Finish; the derived context is done only through the watcher, and then
  every goroutine is past \<^verbatim>\<open>s.wg.Done()\<close>.
\<close>

definition ran_ok :: "search \<Rightarrow> bool" where
  "ran_ok s \<longleftrightarrow>
     (\<forall>i<length (tasks s). 7 \<le> phase (tpc (tasks s ! i)) \<longrightarrow>
        Finish (tname (tasks s ! i)) \<in> set (log s)) \<and>
     (ctxDone s \<longrightarrow> \<not> watcher s \<and> (\<forall>i<length (tasks s). 8 \<le> phase (tpc (tasks s ! i)))) \<and>
     (\<not> ctxDone s \<longrightarrow> watcher s) \<and>
     dfsWait s = 0"

lemma ran_ok_fire:
  assumes f: "fire g l s = Some s'" and np: "\<not> panicked s'" and l: "l \<noteq> Cancel"
    and wg: "wg_ok s" and r: "ran_ok s"
  shows "ran_ok s'"
  using f np
proof (cases rule: fire_forward)
  case (Moved i p)
  note m = Moved(2)
  have i: "i < length (tasks s)" using m by (simp add: moved_def)
  have len: "length (tasks s') = length (tasks s)" using m by (rule moved_length)
  have dw: "dfsWait s' = 0" using m r by (simp add: moved_def ran_ok_def)
  have a: "Finish (tname (tasks s' ! j)) \<in> set (log s')"
    if j: "j < length (tasks s')" and ph: "7 \<le> phase (tpc (tasks s' ! j))" for j
  proof (cases "j = i")
    case False
    then have "7 \<le> phase (tpc (tasks s ! j))" using ph moved_tpc [OF m, of j] by simp
    then have "Finish (tname (tasks s ! j)) \<in> set (log s)"
      using r j len by (simp add: ran_ok_def)
    then show ?thesis using Moved(6) moved_tname [OF m, of j] by auto
  next
    case True
    then have p7: "7 \<le> phase p" using ph moved_tpc [OF m, of j] by simp
    show ?thesis
    proof (cases "phase p = 7")
      case True
      have "\<not> ctxDone s"
      proof
        assume "ctxDone s"
        then have "8 \<le> phase (tpc (tasks s ! i))" using r i by (simp add: ran_ok_def)
        with Moved(3) True show False by simp
      qed
      with Moved(7) [OF True] show ?thesis using \<open>j = i\<close> moved_tname [OF m, of i] by simp
    next
      case False
      with p7 have "8 \<le> phase p" by simp
      then have "7 \<le> phase (tpc (tasks s ! i))" by (rule Moved(8))
      then have "Finish (tname (tasks s ! i)) \<in> set (log s)"
        using r i by (simp add: ran_ok_def)
      then show ?thesis using Moved(6) \<open>j = i\<close> moved_tname [OF m, of i] by auto
    qed
  qed
  have b: "8 \<le> phase (tpc (tasks s' ! j))" if "ctxDone s'" and j: "j < length (tasks s')" for j
  proof -
    from that Moved(4) have c: "ctxDone s" by simp
    then have all: "\<And>k. k < length (tasks s) \<Longrightarrow> 8 \<le> phase (tpc (tasks s ! k))"
      using r by (simp add: ran_ok_def)
    show ?thesis
      using all [of j] all [of i] i j len Moved(3) moved_tpc [OF m, of j]
      by (cases "j = i") simp_all
  qed
  have c: "ctxDone s' \<longrightarrow> \<not> watcher s'" "\<not> ctxDone s' \<longrightarrow> watcher s'"
    using r Moved(4,5) by (simp_all add: ran_ok_def)
  show ?thesis
    unfolding ran_ok_def using a b c dw by blast
next
  case Watch
  have "card (waiting s) = 0" using wg Watch(3) by (simp add: wg_ok_def)
  then have "waiting s = {}" using finite_waiting [of s] by simp
  then have "\<And>i. i < length (tasks s) \<Longrightarrow> 8 \<le> phase (tpc (tasks s ! i))"
    by (fastforce simp: waiting_def)
  then show ?thesis using r Watch(4) by (simp add: ran_ok_def)
next
  case Cancel
  with l show ?thesis by simp
next
  case Tick
  then show ?thesis using r by (simp add: ran_ok_def)
qed

lemma fire_visited: "fire g l s = Some s' \<Longrightarrow> visited s' = visited s"
  by (erule fire_coarse) (simp_all add: moved_def)

text \<open>The three together, for a graph all of whose names the walk has visited.\<close>

definition all_ok :: "'a Graph \<Rightarrow> search \<Rightarrow> bool" where
  "all_ok g s \<longleftrightarrow> run_ok g s \<and> ran_ok s \<and> visited s = dom (actions g)"

lemma all_ok_fire:
  assumes "fire g l s = Some s'" and "l \<noteq> Cancel" and "wf_graph g" and "all_ok g s"
  shows "all_ok g s'"
proof -
  from assms(4) have r: "run_ok g s" and a: "ran_ok s" and v: "visited s = dom (actions g)"
    by (simp_all add: all_ok_def)
  have r': "run_ok g s'" using assms(1,3) r by (rule run_ok_fire)
  then have np: "\<not> panicked s'" by (simp add: run_ok_def)
  have wg: "wg_ok s" using r by (simp add: run_ok_def)
  have "ran_ok s'" using assms(1) np assms(2) wg a by (rule ran_ok_fire)
  with r' v fire_visited [OF assms(1)] show ?thesis by (simp add: all_ok_def)
qed

lemma all_ok_exec:
  "exec g ls s = Some s' \<Longrightarrow> Cancel \<notin> set ls \<Longrightarrow> wf_graph g \<Longrightarrow> all_ok g s \<Longrightarrow> all_ok g s'"
proof (induction ls arbitrary: s)
  case Nil
  then show ?case by simp
next
  case (Cons l ls)
  from Cons.prems(1) obtain s1 where f: "fire g l s = Some s1" and e: "exec g ls s1 = Some s'"
    by (cases "fire g l s") auto
  from Cons.prems(2) have l: "l \<noteq> Cancel" and ls: "Cancel \<notin> set ls" by auto
  from all_ok_fire [OF f l Cons.prems(3,4)] Cons.IH [OF e ls Cons.prems(3)]
  show ?case by blast
qed

lemma all_ok_returned:
  assumes wf: "wf_graph g" and rng: "\<forall>i. range_ok (rng i)"
    and ac: "acyclic (edges g)" and ne: "dom (actions g) \<noteq> {}"
    and res: "Resolve rng None g = Some (r, s0)"
  shows "r = None \<and> all_ok g s0"
proof -
  from Resolve_acyclic [OF wf rng ac ne res]
  have r: "r = None" and v: "visited s0 = dom (actions g)" and c: "\<not> ctxDone s0" by simp_all
  from Resolve_post [OF wf rng, of None] res have post: "resolve_post g None r s0" by auto
  then have so: "started_ok g s0" and w: "watcher s0"
    using r by (simp_all add: resolve_post_def)
  have "\<And>i. i < length (tasks s0) \<Longrightarrow> tpc (tasks s0 ! i) = Spawned"
    using so by (simp add: started_ok_def fresh_ok_def)
  then have "ran_ok s0" using so w c by (simp add: ran_ok_def started_ok_def)
  with run_ok_started [OF so] v r show ?thesis by (simp add: all_ok_def)
qed

lemma count_list_distinct: "distinct xs \<Longrightarrow> x \<in> set xs \<Longrightarrow> count_list xs x = 1"
  by (induction xs) auto

text \<open>
  When the derived context is done, the action of every name has been started once
  and has finished once.
\<close>

lemma all_ok_done:
  assumes "all_ok g s" and "ctxDone s" and "name \<in> dom (actions g)"
  shows "count_list (log s) (Start name) = 1 \<and> count_list (log s) (Finish name) = 1"
proof -
  from assms(1) have r: "run_ok g s" and a: "ran_ok s" and v: "visited s = dom (actions g)"
    by (simp_all add: all_ok_def)
  from r have st: "struct_ok s" and lg: "log_ok s" by (simp_all add: run_ok_def)
  from st v assms(3) have "name \<in> set (map tname (tasks s))" by (simp add: struct_ok_def)
  then obtain i where i: "i < length (tasks s)" "tname (tasks s ! i) = name"
    by (auto simp: in_set_conv_nth)
  from a assms(2) i have "8 \<le> phase (tpc (tasks s ! i))" by (simp add: ran_ok_def)
  with a i have fin: "Finish name \<in> set (log s)" by (auto simp: ran_ok_def)
  from log_ok_task [OF lg i(1)] i(2) have "task_log (log s) name (phase (tpc (tasks s ! i)))"
    by simp
  with fin have sta: "Start name \<in> set (log s)" by (auto simp: task_log_def)
  from lg have "distinct (log s)" by (simp add: log_ok_def)
  with fin sta show ?thesis by (simp add: count_list_distinct)
qed


subsection \<open>Progress\<close>

text \<open>
  Every goroutine that stands neither at its latch nor at its end can take a step,
  once the walk has released the barrier.
\<close>

lemma step_enabled:
  assumes "i < length (tasks s)" and "\<not> panicked s" and "dfsWait s = 0"
    and "tpc (tasks s ! i) \<noteq> AtLatch" and "tpc (tasks s ! i) \<noteq> Finished"
  shows "\<exists>l s'. l \<noteq> Cancel \<and> l \<noteq> Tick \<and> fire g l s = Some s'"
proof (cases "tpc (tasks s ! i)")
  case (Notifying ps)
  show ?thesis
  proof (cases "ps = {}")
    case True
    with Notifying assms(1,2) have "fire g (Step i) s \<noteq> None" by simp
    then show ?thesis by blast
  next
    case False
    then obtain parent where "parent \<in> ps" by blast
    with Notifying assms(1,2) have "fire g (Notify i parent) s \<noteq> None" by simp
    then show ?thesis by blast
  qed
qed (use assms in \<open>(intro exI [of _ "Step i"], simp)+\<close>)

lemma latch_enabled:
  assumes "i < length (tasks s)" and "\<not> panicked s" and "tpc (tasks s ! i) = AtLatch"
    and "groups s ! twg (tasks s ! i) = 0"
  shows "\<exists>l s'. l \<noteq> Cancel \<and> l \<noteq> Tick \<and> fire g l s = Some s'"
  using assms by (intro exI [of _ "Step i"]) simp

text \<open>
  Without a cycle, the goroutines cannot all be blocked at their latches: among the
  names whose goroutine is at its latch, one has no prerequisite there, and all its
  prerequisites have notified it.
\<close>

lemma progress:
  assumes wf: "wf_graph g" and ac: "acyclic (edges g)" and ok: "all_ok g s"
    and nd: "\<not> ctxDone s"
  shows "\<exists>l s'. l \<noteq> Cancel \<and> l \<noteq> Tick \<and> fire g l s = Some s'"
proof -
  from ok have r: "run_ok g s" and a: "ran_ok s" and v: "visited s = dom (actions g)"
    by (simp_all add: all_ok_def)
  from r have st: "struct_ok s" and gr: "groups_ok g s" and wg: "wg_ok s"
    and np: "\<not> panicked s"
    by (simp_all add: run_ok_def)
  from a nd have w: "watcher s" and dw: "dfsWait s = 0" by (simp_all add: ran_ok_def)
  let ?A = "{tname (tasks s ! i) | i. i < length (tasks s) \<and> tpc (tasks s ! i) = AtLatch}"
  show ?thesis
  proof (cases "\<exists>i<length (tasks s). tpc (tasks s ! i) \<noteq> AtLatch \<and> tpc (tasks s ! i) \<noteq> Finished")
    case True
    then show ?thesis using step_enabled [OF _ np dw] by blast
  next
    case False
    then have rest: "\<And>i. i < length (tasks s) \<Longrightarrow>
        tpc (tasks s ! i) = AtLatch \<or> tpc (tasks s ! i) = Finished"
      by blast
    show ?thesis
    proof (cases "?A = {}")
      case True
      with rest have "\<And>i. i < length (tasks s) \<Longrightarrow> tpc (tasks s ! i) = Finished" by blast
      then have "waiting s = {}" by (auto simp: waiting_def)
      with wg have "wg s = 0" by (simp add: wg_ok_def)
      with w np have "fire g Watch s \<noteq> None" by simp
      then show ?thesis by blast
    next
      case False
      then obtain x where x: "x \<in> ?A" by blast
      have "wf ((edges g)\<inverse>)"
        using finite_edges [OF wf] ac by (rule finite_acyclic_wf_converse)
      from wfE_min [OF this x] obtain z where z: "z \<in> ?A"
        and zmin: "\<And>y. (y, z) \<in> (edges g)\<inverse> \<Longrightarrow> y \<notin> ?A" by blast
      from z obtain i where i: "i < length (tasks s)" "tpc (tasks s ! i) = AtLatch"
        "tname (tasks s ! i) = z" by blast
      have "pending g s z = {}"
      proof (rule ccontr)
        assume "pending g s z \<noteq> {}"
        then obtain p where p: "p \<in> lookup (treeOrder g) z" and nn: "\<not> notified s p z"
          by (auto simp: pending_def)
        from p have e: "(p, z) \<in> (edges g)\<inverse>" by (simp add: edges_def)
        from p have "p \<in> dom (actions g)" using wf_treeOrder_subset [OF wf] by blast
        with v st have "p \<in> set (map tname (tasks s))" by (simp add: struct_ok_def)
        then obtain j where j: "j < length (tasks s)" "tname (tasks s ! j) = p"
          by (auto simp: in_set_conv_nth)
        from nn j have "\<not> sent (tpc (tasks s ! j)) z" by (auto simp: notified_def)
        then have "tpc (tasks s ! j) \<noteq> Finished" by auto
        with rest [OF j(1)] have "tpc (tasks s ! j) = AtLatch" by simp
        with j have "p \<in> ?A" by blast
        with zmin [OF e] show False by blast
      qed
      then have "groups s ! i = 0" using gr i by (simp add: groups_ok_def)
      moreover have "twg (tasks s ! i) = i" using st i(1) by (simp add: struct_ok_def)
      ultimately show ?thesis using latch_enabled [OF i(1) np i(2)] by simp
    qed
  qed
qed

subsection \<open>Termination\<close>

text \<open>
  The statements a goroutine has still to execute, at most: \<open>N\<close> bounds the number of
  iterations of the loop of \<^verbatim>\<open>visitComplete\<close>.
\<close>

fun weight :: "nat \<Rightarrow> pc \<Rightarrow> nat" where
  "weight N (Notifying ps) = 1 + card ps"
| "weight N Finished = 0"
| "weight N p = (9 - phase p) + N"

definition remaining :: "nat \<Rightarrow> search \<Rightarrow> nat" where
  "remaining N s =
     sum_list (map (\<lambda>t. weight N (tpc t)) (tasks s)) + (if watcher s then 1 else 0)"

lemma remaining_moved:
  assumes m: "moved s i p s'" and less: "weight N p < weight N (tpc (tasks s ! i))"
    and w: "watcher s' = watcher s"
  shows "remaining N s' < remaining N s"
proof -
  let ?f = "\<lambda>t. weight N (tpc t)"
  from m have i: "i < length (tasks s)"
    and t: "tasks s' = (tasks s)[i := (tasks s ! i)\<lparr>tpc := p\<rparr>]"
    by (simp_all add: moved_def)
  have "map ?f (tasks s') = (map ?f (tasks s))[i := weight N p]"
    unfolding t by (simp add: map_update)
  then have "sum_list (map ?f (tasks s')) =
      sum_list (map ?f (tasks s)) + weight N p - map ?f (tasks s) ! i"
    using i by (simp add: sum_list_update)
  moreover have "map ?f (tasks s) ! i = weight N (tpc (tasks s ! i))" using i by simp
  moreover have "map ?f (tasks s) ! i \<le> sum_list (map ?f (tasks s))"
    by (rule elem_le_sum_list) (use i in simp)
  ultimately have "sum_list (map ?f (tasks s')) < sum_list (map ?f (tasks s))"
    using less by linarith
  then show ?thesis using w by (simp add: remaining_def)
qed

lemma remaining_fire:
  assumes f: "fire g l s = Some s'" and np: "\<not> panicked s'"
    and l: "l \<noteq> Cancel" "l \<noteq> Tick" and wf: "wf_graph g" and nf: "notif_ok g s"
  shows "remaining (card (dom (actions g))) s' < remaining (card (dom (actions g))) s"
  using f
proof (cases rule: fire_cases)
  case (Enter i)
  show ?thesis
    by (rule remaining_moved [OF Enter(4)])
      (use Enter in \<open>simp_all add: recorder_Enter_def setpc_def\<close>)
next
  case (Barrier i)
  show ?thesis
    by (rule remaining_moved [OF Barrier(5)]) (use Barrier in \<open>simp_all add: setpc_def\<close>)
next
  case (Check1 i)
  show ?thesis
    by (rule remaining_moved [OF Check1(4)]) (use Check1 in \<open>simp_all add: setpc_def\<close>)
next
  case (Latch i)
  show ?thesis
    by (rule remaining_moved [OF Latch(5)]) (use Latch in \<open>simp_all add: setpc_def\<close>)
next
  case (Check2 i)
  show ?thesis
    by (rule remaining_moved [OF Check2(4)]) (use Check2 in \<open>simp_all add: setpc_def\<close>)
next
  case (Start i)
  show ?thesis
    by (rule remaining_moved [OF Start(4)])
      (use Start in \<open>simp_all add: recorder_Start_def setpc_def\<close>)
next
  case (Finish i)
  show ?thesis
    by (rule remaining_moved [OF Finish(4)])
      (use Finish in \<open>simp_all add: recorder_Finish_def setpc_def\<close>)
next
  case (DonePanic i)
  with np show ?thesis by simp
next
  case (Done i)
  have "card (lookup (graphOrder g) (tname (tasks s ! i))) \<le> card (dom (actions g))"
    using wf_finite_actions [OF wf] wf_graphOrder_subset [OF wf] by (rule card_mono)
  then show ?thesis
    by (intro remaining_moved [OF Done(5)]) (use Done in \<open>simp_all add: setpc_def\<close>)
next
  case (NotifyNone i parent ps)
  have i: "i < length (tasks s)" using NotifyNone(6) by (simp add: moved_def)
  with nf NotifyNone(3) have "ps \<subseteq> lookup (graphOrder g) (tname (tasks s ! i))"
    by (simp add: notif_ok_def)
  then have "finite ps" using wf_finite_graphOrder [OF wf] by (rule finite_subset)
  then have "card (ps - {parent}) < card ps" using NotifyNone(4) by (rule card_Diff1_less)
  then show ?thesis
    by (intro remaining_moved [OF NotifyNone(6)])
      (use NotifyNone in \<open>simp_all add: setpc_def\<close>)
next
  case (NotifyPanic i parent ps j)
  with np show ?thesis by simp
next
  case (NotifySome i parent ps j)
  have i: "i < length (tasks s)" using NotifySome(7) by (simp add: moved_def)
  with nf NotifySome(3) have "ps \<subseteq> lookup (graphOrder g) (tname (tasks s ! i))"
    by (simp add: notif_ok_def)
  then have "finite ps" using wf_finite_graphOrder [OF wf] by (rule finite_subset)
  then have "card (ps - {parent}) < card ps" using NotifySome(4) by (rule card_Diff1_less)
  then show ?thesis
    by (intro remaining_moved [OF NotifySome(7)])
      (use NotifySome in \<open>simp_all add: setpc_def\<close>)
next
  case (Exit i)
  show ?thesis
    by (rule remaining_moved [OF Exit(4)])
      (use Exit in \<open>simp_all add: recorder_Exit_def setpc_def\<close>)
next
  case Watch
  then show ?thesis by (simp add: remaining_def)
next
  case Cancel
  with l show ?thesis by simp
next
  case Tick
  with l show ?thesis by simp
qed

text \<open>
  So the goroutines can always be run to the end: from every state that a schedule
  without a cancellation reaches, some further steps make the derived context done.
\<close>

lemma can_complete:
  assumes wf: "wf_graph g" and ac: "acyclic (edges g)"
  shows "all_ok g s \<Longrightarrow> \<exists>more s'. Cancel \<notin> set more \<and> exec g more s = Some s' \<and> ctxDone s'"
proof (induction "remaining (card (dom (actions g))) s" arbitrary: s rule: less_induct)
  case less
  show ?case
  proof (cases "ctxDone s")
    case True
    then have "Cancel \<notin> set [] \<and> exec g [] s = Some s \<and> ctxDone s" by simp
    then show ?thesis by blast
  next
    case False
    from progress [OF wf ac less.prems False] obtain l s1 where
      l: "l \<noteq> Cancel" "l \<noteq> Tick" and f: "fire g l s = Some s1" by blast
    have ok1: "all_ok g s1" using f l(1) wf less.prems by (rule all_ok_fire)
    then have np: "\<not> panicked s1" by (simp add: all_ok_def run_ok_def)
    from less.prems have nf: "notif_ok g s" by (simp add: all_ok_def run_ok_def)
    have "remaining (card (dom (actions g))) s1 < remaining (card (dom (actions g))) s"
      using f np l wf nf by (rule remaining_fire)
    from less.hyps [OF this ok1] obtain more s' where
      m: "Cancel \<notin> set more" "exec g more s1 = Some s'" "ctxDone s'" by blast
    have "Cancel \<notin> set (l # more) \<and> exec g (l # more) s = Some s' \<and> ctxDone s'"
      using m l(1) f by simp
    then show ?thesis by blast
  qed
qed

lemma exec_append:
  "exec g (xs @ ys) s = (case exec g xs s of None \<Rightarrow> None | Some s1 \<Rightarrow> exec g ys s1)"
  by (induction xs arbitrary: s) (auto split: option.splits)


lemma remaining_exec:
  "exec g ls s = Some s' \<Longrightarrow> Cancel \<notin> set ls \<Longrightarrow> wf_graph g \<Longrightarrow> all_ok g s \<Longrightarrow>
   length (filter (\<lambda>l. l \<noteq> Tick) ls) + remaining (card (dom (actions g))) s'
     \<le> remaining (card (dom (actions g))) s"
proof (induction ls arbitrary: s)
  case Nil
  then show ?case by simp
next
  case (Cons l ls)
  from Cons.prems(1) obtain s1 where f: "fire g l s = Some s1" and e: "exec g ls s1 = Some s'"
    by (cases "fire g l s") auto
  from Cons.prems(2) have l: "l \<noteq> Cancel" and ls: "Cancel \<notin> set ls" by auto
  have ok1: "all_ok g s1" using f l Cons.prems(3,4) by (rule all_ok_fire)
  note IH = Cons.IH [OF e ls Cons.prems(3) ok1]
  show ?case
  proof (cases "l = Tick")
    case True
    with f have "remaining (card (dom (actions g))) s1 = remaining (card (dom (actions g))) s"
      by (auto simp: remaining_def split: if_splits)
    with IH True show ?thesis by simp
  next
    case False
    from ok1 have np: "\<not> panicked s1" by (simp add: all_ok_def run_ok_def)
    from Cons.prems(4) have nf: "notif_ok g s" by (simp add: all_ok_def run_ok_def)
    have "remaining (card (dom (actions g))) s1 < remaining (card (dom (actions g))) s"
      using f np l False Cons.prems(3) nf by (rule remaining_fire)
    with IH False show ?thesis by simp
  qed
qed

lemma remaining_returned:
  assumes "started_ok g s0" and "visited s0 = dom (actions g)"
  shows "remaining (card (dom (actions g))) s0
           \<le> card (dom (actions g)) * (card (dom (actions g)) + 9) + 1"
proof -
  let ?N = "card (dom (actions g))"
  from assms(1) have st: "struct_ok s0" and fr: "fresh_ok g s0"
    by (simp_all add: started_ok_def)
  have "map (\<lambda>t. weight ?N (tpc t)) (tasks s0) = replicate (length (tasks s0)) (9 + ?N)"
    using fr by (auto simp: fresh_ok_def intro: nth_equalityI)
  then have "sum_list (map (\<lambda>t. weight ?N (tpc t)) (tasks s0)) = length (tasks s0) * (9 + ?N)"
    by (simp add: sum_list_replicate)
  moreover have "length (tasks s0) = ?N"
  proof -
    have "distinct (map tname (tasks s0))" "set (map tname (tasks s0)) = dom (actions g)"
      using st assms(2) by (simp_all add: struct_ok_def)
    then have "card (dom (actions g)) = length (map tname (tasks s0))"
      using distinct_card by metis
    then show ?thesis by simp
  qed
  ultimately show ?thesis by (simp add: remaining_def algebra_simps)
qed

lemma count_list_distinct_le: "distinct xs \<Longrightarrow> count_list xs x \<le> 1"
  by (induction xs) auto

text \<open>
  What a session shows of its outcome: the error returned, whether the derived context
  is done, and the log.
\<close>

definition outcome ::
    "(error option \<times> search) option \<Rightarrow> (error option \<times> bool \<times> event list) option" where
  "outcome r = map_option (\<lambda>(err, s). (err, ctxDone s, log s)) r"

definition no_calls :: "nat call list" where
  "no_calls = []"

text \<open>
  C1, as stated, fails in two ways. The graph without any action has no empty name and
  no cycle, yet \<^verbatim>\<open>Resolve\<close> returns the error "no roots in graph": the loop over the
  roots is not entered, so \<^verbatim>\<open>rootFound\<close> stays false. And when the caller's signal is
  done before the call, \<^verbatim>\<open>Resolve\<close> on the chain returns no error and the derived
  context is done, but no action has run: only the goroutine of the root \<open>b\<close> was
  started, and it skipped its action.
\<close>

theorem resolve_runs_all_counterexample:
  "dom (actions (build no_calls)) = {} \<and> edges (build no_calls) = {} \<and>
   outcome (session anyOrder None (build no_calls) []) = Some (Some NoRoots, True, []) \<and>
   dom (actions (build chain_calls)) = {''a'', ''b''} \<and>
   edges (build chain_calls) = {(''b'', ''a'')} \<and>
   outcome (session anyOrder (Some 0) (build chain_calls)
       [Step 0, Step 0, Step 0, Step 0, Step 0, Watch])
     = Some (None, True, [Enter ''b'', Exit ''b''])"
proof -
  have 1: "dom (actions (build no_calls)) = {}"
    by (simp add: no_calls_def build_def NewGraph_def)
  have 2: "edges (build no_calls) = {}"
    by (simp add: no_calls_def build_def NewGraph_def edges_def)
  have "collectRoots sorted_list_of_set (build no_calls) = []"
    by (simp add: collectRoots_def 1)
  then have 3: "outcome (session anyOrder None (build no_calls) [])
      = Some (Some NoRoots, True, [])"
    by (simp add: outcome_def session_def walk_eval 1)
  have 4: "edges (build chain_calls) = {(''b'', ''a'')}"
    by (auto simp: edges_def chain_simps split: if_splits)
  have 5: "outcome (session anyOrder (Some 0) (build chain_calls)
       [Step 0, Step 0, Step 0, Step 0, Step 0, Watch])
     = Some (None, True, [Enter ''b'', Exit ''b''])"
    by (simp add: outcome_def session_def walk_eval run_eval collectRoots_chain chain_simps)
  from 1 2 3 4 5 show ?thesis by (simp add: chain_simps)
qed

text \<open>
  C1, amended. Take a graph that the construction calls made, with at least one action
  and no cycle of prerequisite edges, a caller's signal that is live at the call, and
  any schedule of the goroutines in which that signal is not cancelled. Then
  \<^verbatim>\<open>Resolve\<close> returns no error and nothing panics; no action is ever started twice;
  in every state in which the derived context is done, the action of every registered
  name has been started exactly once and has returned exactly once; the schedule has
  at most \<open>N * (N + 9) + 1\<close> steps other than clock ticks, for \<open>N\<close> registered
  names; and it can always be continued to a state in which the derived context is
  done. An action is a step of its goroutine: it is taken to return.
\<close>

theorem live_resolve_runs_every_action_once:
  assumes "\<forall>i. range_ok (rng i)"
    and "dom (actions (build calls)) \<noteq> {}"
    and "acyclic (edges (build calls))"
    and "Cancel \<notin> set schedule"
    and "session rng None (build calls) schedule = Some (err, s)"
  shows "err = None \<and> \<not> panicked s \<and>
         (\<forall>name. count_list (log s) (Start name) \<le> 1) \<and>
         (ctxDone s \<longrightarrow>
            (\<forall>name\<in>dom (actions (build calls)).
               count_list (log s) (Start name) = 1 \<and> count_list (log s) (Finish name) = 1)) \<and>
         length (filter (\<lambda>l. l \<noteq> Tick) schedule)
           \<le> card (dom (actions (build calls))) * (card (dom (actions (build calls))) + 9) + 1 \<and>
         (\<exists>more s'. Cancel \<notin> set more \<and>
            session rng None (build calls) (schedule @ more) = Some (None, s') \<and> ctxDone s')"
proof -
  let ?g = "build calls"
  let ?N = "card (dom (actions ?g))"
  note wf = wf_build [of calls]
  from assms(5) obtain s0 where r: "Resolve rng None ?g = Some (err, s0)"
    and e: "exec ?g schedule s0 = Some s"
    by (auto simp: session_def split: option.splits)
  from all_ok_returned [OF wf assms(1,3,2) r] have err: "err = None" and ok0: "all_ok ?g s0"
    by simp_all
  have ok: "all_ok ?g s" using e assms(4) wf ok0 by (rule all_ok_exec)
  then have np: "\<not> panicked s" and d: "distinct (log s)"
    by (simp_all add: all_ok_def run_ok_def log_ok_def)
  have once: "\<forall>name. count_list (log s) (Start name) \<le> 1"
    using count_list_distinct_le [OF d] by blast
  have all: "ctxDone s \<longrightarrow>
      (\<forall>name\<in>dom (actions ?g).
         count_list (log s) (Start name) = 1 \<and> count_list (log s) (Finish name) = 1)"
    using all_ok_done [OF ok] by blast
  have "started_ok ?g s0"
    using Resolve_post [OF wf assms(1), of None] r by (auto simp: resolve_post_def)
  moreover have "visited s0 = dom (actions ?g)" using ok0 by (simp add: all_ok_def)
  ultimately have "remaining ?N s0 \<le> ?N * (?N + 9) + 1" by (rule remaining_returned)
  with remaining_exec [OF e assms(4) wf ok0]
  have bound: "length (filter (\<lambda>l. l \<noteq> Tick) schedule) \<le> ?N * (?N + 9) + 1" by linarith
  from can_complete [OF wf assms(3) ok] obtain more s' where
    m: "Cancel \<notin> set more" "exec ?g more s = Some s'" "ctxDone s'" by blast
  have "session rng None ?g (schedule @ more) = Some (None, s')"
    using r e m(2) err by (simp add: session_def exec_append)
  with m have "\<exists>more s'. Cancel \<notin> set more \<and>
      session rng None ?g (schedule @ more) = Some (None, s') \<and> ctxDone s'" by blast
  with err np once all bound show ?thesis by blast
qed

theorem live_resolve_runs_every_action_once_witness:
  "dom (actions (build chain_calls)) = {''a'', ''b''} \<and>
   acyclic (edges (build chain_calls)) \<and> Cancel \<notin> set chain_schedule \<and>
   (\<exists>s. session anyOrder None (build chain_calls) chain_schedule = Some (None, s) \<and>
      ctxDone s \<and> \<not> panicked s \<and>
      count_list (log s) (Start ''a'') = 1 \<and> count_list (log s) (Finish ''a'') = 1 \<and>
      count_list (log s) (Start ''b'') = 1 \<and> count_list (log s) (Finish ''b'') = 1)"
proof -
  have ne: "dom (actions (build chain_calls)) \<noteq> {}" by (simp add: chain_simps)
  have "edges (build chain_calls) = {(''b'', ''a'')}"
    by (auto simp: edges_def chain_simps split: if_splits)
  moreover have "acyclic ({} :: (string \<times> string) set)" by (simp add: acyclic_def)
  ultimately have ac: "acyclic (edges (build chain_calls))" by simp
  have nc: "Cancel \<notin> set chain_schedule" by (simp add: chain_schedule_def)
  from session_chain obtain s where
    s: "session anyOrder None (build chain_calls) chain_schedule = Some (None, s)"
    and c: "ctxDone s"
    by auto
  from live_resolve_runs_every_action_once [OF range_ok_anyOrder ne ac nc s] c
  have "\<not> panicked s"
    and "\<forall>name\<in>dom (actions (build chain_calls)).
       count_list (log s) (Start name) = 1 \<and> count_list (log s) (Finish name) = 1"
    by blast+
  then show ?thesis using ac nc s c by (auto simp: chain_simps)
qed


end
